theory Spec2Isabelle
  imports Main
begin

section \<open>JavaScript strings\<close>

text \<open>
  The Markdown link engine lives in the class \<open>Utils\<close>: \<open>extractMarkdownLinks\<close> and
  \<open>replaceMarkdownLinksWithOrder\<close>. Both work on a JavaScript string, a sequence of
  UTF-16 code units, through regular expressions without the \<open>u\<close> flag (so one code unit
  is one character for them). A document is modelled as a \<open>string\<close> whose characters are
  the code units \<open>0x00 .. 0xFF\<close>; in that range \<open>\s\<close> and \<open>trim\<close> know seven white-space
  characters, the line terminators are LF and CR, and \<open>toLowerCase\<close> maps A-Z and the
  Latin-1 capitals one to one.
\<close>

definition isLineTerminator :: "char \<Rightarrow> bool" where
  "isLineTerminator c = (c = CHR 0x0A \<or> c = CHR 0x0D)"

definition isWhiteSpace :: "char \<Rightarrow> bool" where
  "isWhiteSpace c =
     (c = CHR 0x09 \<or> c = CHR 0x0A \<or> c = CHR 0x0B \<or> c = CHR 0x0C \<or> c = CHR 0x0D
      \<or> c = CHR 0x20 \<or> c = CHR 0xA0)"

definition isAsciiLetter :: "char \<Rightarrow> bool" where
  "isAsciiLetter c =
     (let n = (of_char c :: nat) in (65 \<le> n \<and> n \<le> 90) \<or> (97 \<le> n \<and> n \<le> 122))"

definition isAsciiDigit :: "char \<Rightarrow> bool" where
  "isAsciiDigit c = (let n = (of_char c :: nat) in 48 \<le> n \<and> n \<le> 57)"

definition trim :: "string \<Rightarrow> string" where
  "trim s = rev (dropWhile isWhiteSpace (rev (dropWhile isWhiteSpace s)))"

definition toLowerCaseChar :: "char \<Rightarrow> char" where
  "toLowerCaseChar c =
     (let n = (of_char c :: nat)
      in if (65 \<le> n \<and> n \<le> 90) \<or> (192 \<le> n \<and> n \<le> 222 \<and> n \<noteq> 215)
         then char_of (n + 32) else c)"

definition toLowerCase :: "string \<Rightarrow> string" where
  "toLowerCase s = map toLowerCaseChar s"

text \<open>\<open>s.slice(a, b)\<close> and \<open>s.slice(a)\<close> for non-negative indices: both ends are clamped
  to the length, and a start at or after the end gives the empty string.\<close>

definition slice :: "string \<Rightarrow> nat \<Rightarrow> nat \<Rightarrow> string" where
  "slice s a b = take (b - a) (drop a s)"

definition sliceFrom :: "string \<Rightarrow> nat \<Rightarrow> string" where
  "sliceFrom s a = drop a s"

definition startsWith :: "string \<Rightarrow> string \<Rightarrow> bool" where
  "startsWith s p = (take (length p) s = p)"

text \<open>\<open>s.indexOf(c)\<close> for a one-character needle: the first index, or -1.\<close>

definition indexOf :: "string \<Rightarrow> char \<Rightarrow> int" where
  "indexOf s c = (if c \<in> set s then int (length (takeWhile (\<lambda>d. d \<noteq> c) s)) else - 1)"

text \<open>\<open>s.replace(/[<>]/g, "")\<close> deletes every angle bracket.\<close>

definition removeAngles :: "string \<Rightarrow> string" where
  "removeAngles s = filter (\<lambda>c. c \<noteq> CHR ''<'' \<and> c \<noteq> CHR ''>'') s"

text \<open>\<open>s.split(/\s+/)[0]\<close>: the text before the first run of white space (the empty
  string when \<open>s\<close> is empty or starts with white space).\<close>

definition firstToken :: "string \<Rightarrow> string" where
  "firstToken s = takeWhile (\<lambda>c. \<not> isWhiteSpace c) s"

text \<open>The decimal digits of a number, as the template literal \<open>`${n}`\<close> prints them.\<close>

definition digitChar :: "nat \<Rightarrow> char" where
  "digitChar d = char_of (48 + d)"

function toStringNat :: "nat \<Rightarrow> string" where
  "toStringNat n = (if n < 10 then [digitChar n] else toStringNat (n div 10) @ [digitChar (n mod 10)])"
  by pat_completeness auto
termination
  by (relation "measure (\<lambda>n. n)") auto

declare toStringNat.simps [simp del]

section \<open>Regular expressions\<close>

text \<open>
  The pattern language of the regular expressions in \<open>Utils\<close>: literal characters,
  character classes, sequence, alternation, quantifiers \<open>{min,max}\<close> (greedy or lazy),
  capture groups, back-references, the look-behind \<open>(?<!c)\<close> for one character, and the
  assertions \<open>^\<close> and \<open>$\<close> with and without the \<open>m\<close> flag.
\<close>

datatype regex =
    Empty
  | Lit char
  | Cls "char \<Rightarrow> bool"
  | Cat regex regex
  | Alt regex regex
  | Rep nat "nat option" bool regex
  | Grp nat regex
  | BackRef nat
  | NotBehind char
  | LineStart
  | LineEnd
  | InputStart
  | InputEnd

text \<open>A match state is ECMAScript's: the end index reached and the captures so far.\<close>

record mstate =
  endIndex :: nat
  captures :: "nat \<Rightarrow> string option"

text \<open>
  ECMAScript's RepeatMatcher. \<open>m\<close> matches the quantified atom once, \<open>n\<close> is the length
  of the input, \<open>mn\<close> and \<open>mx\<close> are the bounds still to go (\<open>None\<close> is no upper bound) and
  \<open>g\<close> says greedy. The result lists every way to go on, most preferred first, which is
  the order in which backtracking tries them. An iteration that is not required
  (\<open>mn = 0\<close>) and consumes nothing is rejected, as in ECMAScript. No state of a match
  moves backwards or past the end of the input (\<open>ms_bounds\<close> and \<open>rep_filter_bounds\<close>
  below), which the filters repeat so that the recursion visibly terminates. None of the patterns of \<open>Utils\<close> has a
  capture group under a quantifier, so the captures are not reset between iterations.
\<close>

function rep :: "(mstate \<Rightarrow> mstate list) \<Rightarrow> nat \<Rightarrow> nat \<Rightarrow> nat option \<Rightarrow> bool \<Rightarrow> mstate \<Rightarrow> mstate list" where
  "rep m n mn mx g x =
     (if mx = Some 0 then [x]
      else if mn \<noteq> 0 then
        concat (map (rep m n (mn - 1) (map_option (\<lambda>k. k - 1) mx) g)
          (filter (\<lambda>y. endIndex x \<le> endIndex y \<and> endIndex y \<le> n) (m x)))
      else if g then
        concat (map (rep m n 0 (map_option (\<lambda>k. k - 1) mx) g)
          (filter (\<lambda>y. endIndex x < endIndex y \<and> endIndex y \<le> n) (m x))) @ [x]
      else
        x # concat (map (rep m n 0 (map_option (\<lambda>k. k - 1) mx) g)
          (filter (\<lambda>y. endIndex x < endIndex y \<and> endIndex y \<le> n) (m x))))"
  by pat_completeness auto
termination
  by (relation "measure (\<lambda>(m, n, mn, mx, g, x). mn + (n - endIndex x))") auto

declare rep.simps [simp del]

text \<open>\<open>ms r s x\<close>: the states in which a match of \<open>r\<close> in \<open>s\<close> started in state \<open>x\<close> can
  end, in backtracking order. The head of the list is the match ECMAScript reports.\<close>

fun ms :: "regex \<Rightarrow> string \<Rightarrow> mstate \<Rightarrow> mstate list" where
  "ms Empty s x = [x]"
| "ms (Lit c) s x =
     (if endIndex x < length s \<and> s ! endIndex x = c then [x\<lparr>endIndex := endIndex x + 1\<rparr>] else [])"
| "ms (Cls P) s x =
     (if endIndex x < length s \<and> P (s ! endIndex x) then [x\<lparr>endIndex := endIndex x + 1\<rparr>] else [])"
| "ms (Cat r1 r2) s x = concat (map (ms r2 s) (ms r1 s x))"
| "ms (Alt r1 r2) s x = ms r1 s x @ ms r2 s x"
| "ms (Rep mn mx g r) s x = rep (\<lambda>y. ms r s y) (length s) mn mx g x"
| "ms (Grp k r) s x =
     map (\<lambda>y. y\<lparr>captures := (captures y)(k := Some (slice s (endIndex x) (endIndex y)))\<rparr>) (ms r s x)"
| "ms (BackRef k) s x =
     (case captures x k of
        None \<Rightarrow> [x]
      | Some t \<Rightarrow>
          if slice s (endIndex x) (endIndex x + length t) = t
          then [x\<lparr>endIndex := endIndex x + length t\<rparr>] else [])"
| "ms (NotBehind c) s x =
     (if 0 < endIndex x \<and> s ! (endIndex x - 1) = c then [] else [x])"
| "ms LineStart s x =
     (if endIndex x = 0 \<or> isLineTerminator (s ! (endIndex x - 1)) then [x] else [])"
| "ms LineEnd s x =
     (if endIndex x = length s \<or> isLineTerminator (s ! endIndex x) then [x] else [])"
| "ms InputStart s x = (if endIndex x = 0 then [x] else [])"
| "ms InputEnd s x = (if endIndex x = length s then [x] else [])"

text \<open>
  What \<open>re.exec(s)\<close> returns: the index of the match, the index after it (which a global
  regular expression stores in \<open>lastIndex\<close>) and the capture groups; \<open>m[0]\<close> is the text
  between the two indices.
\<close>

record rmatch =
  m_index :: nat
  m_end :: nat
  m_groups :: "nat \<Rightarrow> string option"

definition m_0 :: "string \<Rightarrow> rmatch \<Rightarrow> string" where
  "m_0 s m = slice s (m_index m) (m_end m)"

text \<open>RegExpBuiltinExec from \<open>lastIndex = i\<close>: the first index at or after \<open>i\<close> where the
  pattern matches, or \<open>None\<close> for \<open>null\<close>.\<close>

function regexExec :: "regex \<Rightarrow> string \<Rightarrow> nat \<Rightarrow> rmatch option" where
  "regexExec re s i =
     (if length s < i then None
      else case ms re s \<lparr>endIndex = i, captures = \<lambda>_. None\<rparr> of
             [] \<Rightarrow> regexExec re s (i + 1)
           | y # _ \<Rightarrow> Some \<lparr>m_index = i, m_end = endIndex y, m_groups = captures y\<rparr>)"
  by pat_completeness auto
termination
  by (relation "measure (\<lambda>(re, s, i). length s + 1 - i)") auto

declare regexExec.simps [simp del]

text \<open>\<open>re.test(s)\<close> for a regular expression without the \<open>g\<close> flag.\<close>

definition regexTest :: "regex \<Rightarrow> string \<Rightarrow> bool" where
  "regexTest re s = (regexExec re s 0 \<noteq> None)"

text \<open>
  The loop \<open>while ((m = re.exec(s)) !== null) { body }\<close> over a global regular expression.
  Each round searches from \<open>lastIndex\<close>, which \<open>exec\<close> leaves at the end of the match; it
  is not advanced after an empty match, so the loop need not end: \<open>None\<close> is a loop that
  runs forever. The body returns the new state or raises.
\<close>

datatype error = TypeError

partial_function (option) execWhile ::
  "regex \<Rightarrow> string \<Rightarrow> (rmatch \<Rightarrow> 'a \<Rightarrow> error + 'a) \<Rightarrow> nat \<Rightarrow> 'a \<Rightarrow> (error + 'a) option" where
  "execWhile re s body lastIndex st =
     (case regexExec re s lastIndex of
        None \<Rightarrow> Some (Inr st)
      | Some m \<Rightarrow>
          (case body m st of
             Inl e \<Rightarrow> Some (Inl e)
           | Inr st' \<Rightarrow> execWhile re s body (m_end m) st'))"

declare execWhile.simps [code]

text \<open>No match moves backwards or leaves the input.\<close>

lemma rep_unfold:
  "y \<in> set (rep m n mn mx g x) \<Longrightarrow>
     (y = x \<and> (mx = Some 0 \<or> mn = 0)) \<or>
     (mx \<noteq> Some 0 \<and> (\<exists>z \<in> set (m x). endIndex x \<le> endIndex z \<and> endIndex z \<le> n \<and> (mn = 0 \<longrightarrow> endIndex x < endIndex z) \<and>
         y \<in> set (rep m n (mn - 1) (map_option (\<lambda>k. k - 1) mx) g z)))"
  by (subst (asm) rep.simps) (auto split: if_splits)

lemma rep_bounds:
  "y \<in> set (rep m n mn mx g x) \<Longrightarrow> endIndex x \<le> endIndex y \<and> (endIndex x \<le> n \<longrightarrow> endIndex y \<le> n)"
proof (induction m n mn mx g x arbitrary: y rule: rep.induct)
  case (1 m n mn mx g x)
  from rep_unfold [OF "1.prems"] consider
    (stop) "y = x"
    | (iter) z where "mx \<noteq> Some 0" "z \<in> set (m x)" "endIndex x \<le> endIndex z" "endIndex z \<le> n"
        "mn = 0 \<longrightarrow> endIndex x < endIndex z"
        "y \<in> set (rep m n (mn - 1) (map_option (\<lambda>k. k - 1) mx) g z)"
    by blast
  then show ?case
  proof cases
    case stop
    then show ?thesis by simp
  next
    case iter
    show ?thesis
    proof (cases "mn = 0")
      case True
      with iter "1.IH"(2) [of z y] "1.IH"(3) [of z y] show ?thesis
        by (cases g) auto
    next
      case False
      with iter "1.IH"(1) [of z y] show ?thesis by auto
    qed
  qed
qed

lemma slice_eq_length:
  assumes "slice s a (a + length t) = t" and "a \<le> length s"
  shows "a + length t \<le> length s"
proof -
  have "length t = length (slice s a (a + length t))" using assms(1) by simp
  also have "\<dots> \<le> length s - a" by (simp add: slice_def)
  finally show ?thesis using assms(2) by simp
qed

lemma ms_bounds:
  "y \<in> set (ms r s x) \<Longrightarrow> endIndex x \<le> length s \<Longrightarrow>
   endIndex x \<le> endIndex y \<and> endIndex y \<le> length s"
proof (induction r arbitrary: x y)
  case (Cat r1 r2)
  from Cat.prems(1) obtain z where z: "z \<in> set (ms r1 s x)" and y: "y \<in> set (ms r2 s z)"
    by auto
  from Cat.IH(1) [OF z Cat.prems(2)] Cat.IH(2) [OF y] show ?case by simp
next
  case (Alt r1 r2)
  then show ?case by auto
next
  case (Rep mn mx g r)
  then show ?case using rep_bounds [of y "\<lambda>y. ms r s y" "length s" mn mx g x] by simp
next
  case (Grp k r)
  from Grp.prems(1) obtain z where z: "z \<in> set (ms r s x)" and y: "endIndex y = endIndex z"
    by auto
  from Grp.IH [OF z Grp.prems(2)] y show ?case by simp
next
  case (BackRef k)
  show ?case
  proof (cases "captures x k")
    case None
    with BackRef show ?thesis by simp
  next
    case (Some t)
    with BackRef have eq: "slice s (endIndex x) (endIndex x + length t) = t"
      and y: "y = x\<lparr>endIndex := endIndex x + length t\<rparr>"
      by (auto split: if_splits)
    from slice_eq_length [OF eq BackRef(2)] y show ?thesis by simp
  qed
qed (auto split: if_splits)

text \<open>So the bounds in the filters of \<open>rep\<close> hold for every state the atom returns: the
  filters drop the empty iterations that ECMAScript rejects and nothing else.\<close>

lemma rep_filter_bounds:
  assumes "endIndex x \<le> length s"
  shows "filter (\<lambda>y. endIndex x \<le> endIndex y \<and> endIndex y \<le> length s) (ms r s x) = ms r s x"
    and "filter (\<lambda>y. endIndex x < endIndex y \<and> endIndex y \<le> length s) (ms r s x)
         = filter (\<lambda>y. endIndex y \<noteq> endIndex x) (ms r s x)"
proof -
  show "filter (\<lambda>y. endIndex x \<le> endIndex y \<and> endIndex y \<le> length s) (ms r s x) = ms r s x"
    unfolding filter_id_conv using ms_bounds [OF _ assms] by blast
  show "filter (\<lambda>y. endIndex x < endIndex y \<and> endIndex y \<le> length s) (ms r s x)
         = filter (\<lambda>y. endIndex y \<noteq> endIndex x) (ms r s x)"
  proof (rule filter_cong [OF refl])
    fix y assume "y \<in> set (ms r s x)"
    from ms_bounds [OF this assms]
    show "(endIndex x < endIndex y \<and> endIndex y \<le> length s) = (endIndex y \<noteq> endIndex x)"
      by auto
  qed
qed

lemma regexExec_unfold:
  "regexExec re s i = Some m \<Longrightarrow>
     i \<le> length s \<and>
     (case ms re s \<lparr>endIndex = i, captures = \<lambda>_. None\<rparr> of
        [] \<Rightarrow> regexExec re s (i + 1) = Some m
      | y # _ \<Rightarrow> m = \<lparr>m_index = i, m_end = endIndex y, m_groups = captures y\<rparr>)"
  by (subst (asm) regexExec.simps) (auto split: if_splits list.splits)

lemma regexExec_bounds:
  "regexExec re s i = Some m \<Longrightarrow> i \<le> m_index m \<and> m_index m \<le> m_end m \<and> m_end m \<le> length s"
proof (induction re s i rule: regexExec.induct)
  case (1 re s i)
  note u = regexExec_unfold [OF "1.prems"]
  show ?case
  proof (cases "ms re s \<lparr>endIndex = i, captures = \<lambda>_. None\<rparr>")
    case Nil
    with u have "regexExec re s (i + 1) = Some m" and "\<not> length s < i" by auto
    with "1.IH" [OF _ Nil] show ?thesis by auto
  next
    case (Cons y ys)
    with u have le: "i \<le> length s" and m: "m = \<lparr>m_index = i, m_end = endIndex y, m_groups = captures y\<rparr>"
      by auto
    from Cons have "y \<in> set (ms re s \<lparr>endIndex = i, captures = \<lambda>_. None\<rparr>)" by simp
    from ms_bounds [OF this] le m show ?thesis by simp
  qed
qed

text \<open>
  \<open>s.matchAll(re)\<close> for a global regular expression: the matches from \<open>lastIndex\<close> on.
  Unlike the \<open>exec\<close> loop, the iterator steps over an empty match (AdvanceStringIndex),
  so it always ends.
\<close>

function matchAllFrom :: "regex \<Rightarrow> string \<Rightarrow> nat \<Rightarrow> rmatch list" where
  "matchAllFrom re s lastIndex =
     (case regexExec re s lastIndex of
        None \<Rightarrow> []
      | Some m \<Rightarrow>
          m # matchAllFrom re s (if m_end m = m_index m then m_end m + 1 else m_end m))"
  by pat_completeness auto
termination
proof (relation "measure (\<lambda>(re, s, i). length s + 1 - i)", goal_cases)
  case 1
  show ?case by simp
next
  case (2 re s lastIndex m)
  from regexExec_bounds [OF 2] show ?case by auto
qed

declare matchAllFrom.simps [simp del]

definition matchAll :: "regex \<Rightarrow> string \<Rightarrow> rmatch list" where
  "matchAll re s = matchAllFrom re s 0"

section \<open>The patterns of \<open>Utils\<close>\<close>

definition star :: "regex \<Rightarrow> regex" where
  "star r = Rep 0 None True r"

definition lazyStar :: "regex \<Rightarrow> regex" where
  "lazyStar r = Rep 0 None False r"

definition plus :: "regex \<Rightarrow> regex" where
  "plus r = Rep 1 None True r"

definition opt :: "regex \<Rightarrow> regex" where
  "opt r = Rep 0 (Some 1) True r"

definition cats :: "regex list \<Rightarrow> regex" where
  "cats rs = foldr Cat rs Empty"

definition notOneOf :: "string \<Rightarrow> regex" where
  "notOneOf cs = Cls (\<lambda>c. c \<notin> set cs)"

definition oneOf :: "string \<Rightarrow> regex" where
  "oneOf cs = Cls (\<lambda>c. c \<in> set cs)"

text \<open>\<open>\s\<close>, \<open>[^\s>]\<close>, \<open>[^\s]\<close>, \<open>[^@\s]\<close>, \<open>[^>\s]\<close>, \<open>.\<close>, \<open>[\s\S]\<close>, \<open>[a-zA-Z]\<close>
  and \<open>[a-zA-Z0-9+.-]\<close>.\<close>

definition space :: regex where
  "space = Cls isWhiteSpace"

definition notSpaceNor :: "string \<Rightarrow> regex" where
  "notSpaceNor cs = Cls (\<lambda>c. \<not> isWhiteSpace c \<and> c \<notin> set cs)"

definition dot :: regex where
  "dot = Cls (\<lambda>c. \<not> isLineTerminator c)"

definition anyChar :: regex where
  "anyChar = Cls (\<lambda>c. True)"

definition letter :: regex where
  "letter = Cls isAsciiLetter"

definition schemeChar :: regex where
  "schemeChar = Cls (\<lambda>c. isAsciiLetter c \<or> isAsciiDigit c \<or> c \<in> set ''+.-'')"

text \<open>The extractor's patterns. The \<open>i\<close> flag of \<open>refDefRe\<close> changes nothing: the
  pattern has no letter, and no character is case-folded onto a member of its classes.
  The named groups \<open>text\<close>, \<open>inside\<close> (or \<open>id\<close>) and \<open>img\<close> (or \<open>img2\<close>) are the groups
  1, 2 and 3.\<close>

definition refDefRe :: regex where
  "refDefRe = cats
     [LineStart, Rep 0 (Some 3) True space,
      Lit CHR ''['', Grp 1 (plus (notOneOf [CHR '']'', CHR 0x0D, CHR 0x0A])), Lit CHR '']'', Lit CHR '':'',
      star space, opt (Lit CHR ''<''), Grp 2 (plus (notSpaceNor ''>'')), opt (Lit CHR ''>''),
      opt (cats [plus space, oneOf [CHR 0x22, CHR 0x27, CHR ''(''], lazyStar dot,
                 oneOf [CHR 0x22, CHR 0x27, CHR '')'']]),
      star space, LineEnd]"

definition inlineLinkRe :: regex where
  "inlineLinkRe = Alt
     (cats [NotBehind CHR ''!'', Lit CHR ''['', Grp 1 (star (notOneOf '']'')), Lit CHR '']'',
            Lit CHR ''('', Grp 2 (plus (notOneOf '')'')), Lit CHR '')''])
     (cats [Lit CHR ''!'', Lit CHR ''['', Grp 3 (star (notOneOf '']'')), Lit CHR '']'',
            Lit CHR ''('', plus (notOneOf '')''), Lit CHR '')''])"

definition autolinkRe :: regex where
  "autolinkRe = cats
     [Lit CHR ''<'', Grp 1 (cats [letter, star schemeChar, Lit CHR '':'', plus (notSpaceNor ''>'')]),
      Lit CHR ''>'']"

definition refLinkRe :: regex where
  "refLinkRe = Alt
     (cats [NotBehind CHR ''!'', Lit CHR ''['', Grp 1 (plus (notOneOf '']'')), Lit CHR '']'',
            Lit CHR ''['', Grp 2 (star (notOneOf [CHR '']'', CHR 0x0D, CHR 0x0A])), Lit CHR '']''])
     (cats [Lit CHR ''!'', Lit CHR ''['', Grp 3 (plus (notOneOf '']'')), Lit CHR '']'',
            Lit CHR ''['', star (notOneOf [CHR '']'', CHR 0x0D, CHR 0x0A]), Lit CHR '']''])"

text \<open>The rewriter's patterns.\<close>

definition fencedRE :: regex where
  "fencedRE = cats
     [Grp 1 (Alt (cats [Lit CHR 0x60, Lit CHR 0x60, Lit CHR 0x60])
                 (cats [Lit CHR ''~'', Lit CHR ''~'', Lit CHR ''~''])),
      star (notOneOf [CHR 0x0A]), Lit CHR 0x0A, lazyStar anyChar, Lit CHR 0x0A, BackRef 1]"

definition inlineCodeRE :: regex where
  "inlineCodeRE = cats [Lit CHR 0x60, star (notOneOf [CHR 0x60, CHR 0x0A]), Lit CHR 0x60]"

definition defLineRE :: regex where
  "defLineRE = cats
     [LineStart, Rep 0 (Some 3) True space,
      Lit CHR ''['', plus (notOneOf [CHR '']'', CHR 0x0D, CHR 0x0A]), Lit CHR '']'', Lit CHR '':'',
      star (notOneOf [CHR 0x0A]), LineEnd]"

definition inlineLinkRE :: regex where
  "inlineLinkRE = cats
     [opt (Lit CHR ''!''), Lit CHR ''['', star (notOneOf '']''), Lit CHR '']'',
      Lit CHR ''('', plus (notOneOf '')''), Lit CHR '')'']"

definition refLinkRE :: regex where
  "refLinkRE = cats
     [opt (Lit CHR ''!''), Lit CHR ''['', plus (notOneOf '']''), Lit CHR '']'',
      Lit CHR ''['', star (notOneOf [CHR '']'', CHR 0x0D, CHR 0x0A]), Lit CHR '']'']"

definition autolinkRE :: regex where
  "autolinkRE = cats [Lit CHR ''<'', Grp 1 (plus (notSpaceNor ''>'')), Lit CHR ''>'']"

definition looksLikeUrlRE :: regex where
  "looksLikeUrlRE = cats
     [InputStart, letter, star schemeChar, Lit CHR '':'', plus (notSpaceNor []), InputEnd]"

definition looksLikeEmailRE :: regex where
  "looksLikeEmailRE = cats
     [InputStart, plus (notSpaceNor ''@''), Lit CHR ''@'', plus (notSpaceNor ''@''), Lit CHR ''.'',
      plus (notSpaceNor ''@''), InputEnd]"

section \<open>The link extractor\<close>

record MarkdownLink =
  title :: string
  url :: string

text \<open>The helper \<open>push\<close> of \<open>extractMarkdownLinks\<close>: an empty \<open>url\<close> is falsy and nothing
  is pushed for it.\<close>

definition push :: "MarkdownLink list \<Rightarrow> string \<Rightarrow> string \<Rightarrow> MarkdownLink list" where
  "push results t u = (if u = [] then results else results @ [\<lparr>title = t, url = u\<rparr>])"

text \<open>\<open>m.groups?.name ?? ""\<close>: the group, or the empty string when it did not take part.\<close>

definition groupOrEmpty :: "rmatch \<Rightarrow> nat \<Rightarrow> string" where
  "groupOrEmpty m k = (case m_groups m k of None \<Rightarrow> [] | Some t \<Rightarrow> t)"

text \<open>Pass 1, the body of the loop over \<open>refDefRe\<close>. \<open>defMatch[1].trim()\<close> raises a
  TypeError on a group that is \<open>undefined\<close>. Later definitions overwrite earlier ones.\<close>

definition harvestBody :: "rmatch \<Rightarrow> (string \<rightharpoonup> string) \<Rightarrow> error + (string \<rightharpoonup> string)" where
  "harvestBody defMatch references =
     (case m_groups defMatch 1 of
        None \<Rightarrow> Inl TypeError
      | Some g1 \<Rightarrow>
          (case m_groups defMatch 2 of
             None \<Rightarrow> Inl TypeError
           | Some g2 \<Rightarrow> Inr (references(toLowerCase (trim g1) \<mapsto> trim g2))))"

text \<open>Pass 2: the URL inside the parentheses of an inline link.\<close>

definition inlineUrl :: "string \<Rightarrow> string" where
  "inlineUrl inside =
     (if startsWith inside ''<'' then
        (let gt = indexOf inside CHR ''>''
         in if gt > 0 then trim (slice inside 1 (nat gt)) else trim (removeAngles inside))
      else trim (firstToken inside))"

definition inlineBody :: "rmatch \<Rightarrow> MarkdownLink list \<Rightarrow> error + MarkdownLink list" where
  "inlineBody ilMatch results =
     (if m_groups ilMatch 3 \<noteq> None then Inr results
      else
        (let text = trim (groupOrEmpty ilMatch 1);
             inside = trim (groupOrEmpty ilMatch 2)
         in Inr (push results text (inlineUrl inside))))"

text \<open>Pass 3.\<close>

definition autolinkBody :: "rmatch \<Rightarrow> MarkdownLink list \<Rightarrow> error + MarkdownLink list" where
  "autolinkBody alMatch results =
     (case m_groups alMatch 1 of
        None \<Rightarrow> Inl TypeError
      | Some g \<Rightarrow> Inr (push results [] (trim g)))"

text \<open>Pass 4: \<open>references.get(id) ?? ""\<close> is the empty string for an unknown id.\<close>

definition refBody ::
  "(string \<rightharpoonup> string) \<Rightarrow> rmatch \<Rightarrow> MarkdownLink list \<Rightarrow> error + MarkdownLink list" where
  "refBody references rlMatch results =
     (if m_groups rlMatch 3 \<noteq> None then Inr results
      else
        (let text = trim (groupOrEmpty rlMatch 1);
             rawId = trim (groupOrEmpty rlMatch 2);
             ident = toLowerCase (if rawId \<noteq> [] then rawId else text);
             u = (case references ident of None \<Rightarrow> [] | Some v \<Rightarrow> v)
         in Inr (push results text u)))"

text \<open>Sequencing of statements that may run forever (\<open>None\<close>) or raise (\<open>Inl\<close>).\<close>

definition andThen :: "(error + 'a) option \<Rightarrow> ('a \<Rightarrow> (error + 'b) option) \<Rightarrow> (error + 'b) option" where
  "andThen r f = (case r of None \<Rightarrow> None | Some (Inl e) \<Rightarrow> Some (Inl e) | Some (Inr v) \<Rightarrow> f v)"

definition extractMarkdownLinks :: "string \<Rightarrow> (error + MarkdownLink list) option" where
  "extractMarkdownLinks markdown =
     andThen (execWhile refDefRe markdown harvestBody 0 Map.empty) (\<lambda>references.
     andThen (execWhile inlineLinkRe markdown inlineBody 0 []) (\<lambda>results.
     andThen (execWhile autolinkRe markdown autolinkBody 0 results) (\<lambda>results.
     execWhile refLinkRe markdown (refBody references) 0 results)))"

section \<open>The rewriter\<close>

text \<open>The types \<open>Range\<close> and \<open>Hit\<close> of \<open>replaceMarkdownLinksWithOrder\<close> have the same
  fields, \<open>start\<close> and \<open>end\<close>.\<close>

record Range =
  r_start :: nat
  r_end :: nat

type_synonym Hit = Range

definition intersects :: "Range \<Rightarrow> Range \<Rightarrow> bool" where
  "intersects a b = (\<not> (r_end a \<le> r_start b \<or> r_end b \<le> r_start a))"

definition isInsideExcluded :: "nat \<Rightarrow> nat \<Rightarrow> Range list \<Rightarrow> bool" where
  "isInsideExcluded start end' excluded =
     list_ex (\<lambda>r. intersects \<lparr>r_start = start, r_end = end'\<rparr> r) excluded"

text \<open>\<open>{ start: m.index, end: m.index + m[0].length }\<close>.\<close>

definition rangeOf :: "string \<Rightarrow> rmatch \<Rightarrow> Range" where
  "rangeOf markdown m = \<lparr>r_start = m_index m, r_end = m_index m + length (m_0 markdown m)\<rparr>"

definition excludedRanges :: "string \<Rightarrow> Range list" where
  "excludedRanges markdown =
     (let fenced = fold (\<lambda>m excluded. excluded @ [rangeOf markdown m]) (matchAll fencedRE markdown) [];
          code = fold (\<lambda>m excluded.
                   let r = rangeOf markdown m
                   in if \<not> isInsideExcluded (r_start r) (r_end r) excluded then excluded @ [r]
                      else excluded)
                   (matchAll inlineCodeRE markdown) fenced
      in fold (\<lambda>m excluded. excluded @ [rangeOf markdown m]) (matchAll defLineRE markdown) code)"

text \<open>The body shared by the loops over inline and reference-style links.\<close>

definition linkBody :: "string \<Rightarrow> Range list \<Rightarrow> rmatch \<Rightarrow> Hit list \<Rightarrow> Hit list" where
  "linkBody markdown excluded m hits =
     (let r = rangeOf markdown m
      in if startsWith (m_0 markdown m) ''!'' then hits
         else if \<not> isInsideExcluded (r_start r) (r_end r) excluded then hits @ [r]
         else hits)"

text \<open>The body of the loop over autolinks; \<open>test\<close> turns an \<open>undefined\<close> group into the
  string "undefined".\<close>

definition autolinkHitBody :: "string \<Rightarrow> Range list \<Rightarrow> rmatch \<Rightarrow> Hit list \<Rightarrow> Hit list" where
  "autolinkHitBody markdown excluded m hits =
     (let r = rangeOf markdown m;
          inner = (case m_groups m 1 of None \<Rightarrow> ''undefined'' | Some t \<Rightarrow> t);
          looksLikeUrl = regexTest looksLikeUrlRE inner;
          looksLikeEmail = regexTest looksLikeEmailRE inner
      in if (looksLikeUrl \<or> looksLikeEmail) \<and> \<not> isInsideExcluded (r_start r) (r_end r) excluded
         then hits @ [r] else hits)"

definition collectHits :: "string \<Rightarrow> Range list \<Rightarrow> Hit list" where
  "collectHits markdown excluded =
     (let inline = fold (linkBody markdown excluded) (matchAll inlineLinkRE markdown) [];
          reference = fold (linkBody markdown excluded) (matchAll refLinkRE markdown) inline
      in fold (autolinkHitBody markdown excluded) (matchAll autolinkRE markdown) reference)"

text \<open>The marker \<open>`[${i + 1}]`\<close> is \<open>marker (i + 1)\<close>.\<close>

definition marker :: "nat \<Rightarrow> string" where
  "marker k = ''['' @ toStringNat k @ '']''"

text \<open>\<open>hits.forEach((hit, i) => ...)\<close> on the variables \<open>result\<close> and \<open>cursor\<close>.\<close>

fun replaceLoop :: "string \<Rightarrow> Hit list \<Rightarrow> nat \<Rightarrow> string \<times> nat \<Rightarrow> string \<times> nat" where
  "replaceLoop markdown [] i (result, cursor) = (result, cursor)"
| "replaceLoop markdown (hit # hits) i (result, cursor) =
     replaceLoop markdown hits (i + 1)
       (result @ slice markdown cursor (r_start hit) @ marker (i + 1), r_end hit)"

text \<open>\<open>hits.sort((a, b) => a.start - b.start)\<close> is a stable sort on \<open>start\<close>.\<close>

definition keptHits :: "string \<Rightarrow> Hit list" where
  "keptHits markdown = sort_key r_start (collectHits markdown (excludedRanges markdown))"

definition replaceMarkdownLinksWithOrder :: "string \<Rightarrow> string" where
  "replaceMarkdownLinksWithOrder markdown =
     (case replaceLoop markdown (keptHits markdown) 0 ([], 0) of
        (result, cursor) \<Rightarrow> result @ sliceFrom markdown cursor)"

section \<open>The examples of the specification\<close>

text \<open>The model run on the documents that the specification works out.\<close>

lemma example_extract_inline_and_autolink:
  "extractMarkdownLinks ''See [Docs](https://a.test/x) and <https://a.test/y>.''
     = Some (Inr [\<lparr>title = ''Docs'', url = ''https://a.test/x''\<rparr>,
                  \<lparr>title = [], url = ''https://a.test/y''\<rparr>])"
  by code_simp

lemma example_extract_reference:
  "extractMarkdownLinks
     (''[Ref][1]'' @ [CHR 0x0A, CHR 0x0A] @ ''[1]: https://a.test/z '' @ [CHR 0x22] @ ''T'' @ [CHR 0x22])
     = Some (Inr [\<lparr>title = ''Ref'', url = ''https://a.test/z''\<rparr>])"
  by code_simp

lemma example_rewrite_code_span:
  "replaceMarkdownLinksWithOrder
     (''code: '' @ [CHR 0x60] @ ''[x](y)'' @ [CHR 0x60] @ '' and real [x](y)'')
     = ''code: '' @ [CHR 0x60] @ ''[x](y)'' @ [CHR 0x60] @ '' and real [1]''"
  by code_simp

lemma example_rewrite_definition_line:
  "replaceMarkdownLinksWithOrder ''[1]: https://a.test/z'' = ''[1]: https://a.test/z''"
  by code_simp

section \<open>Facts about matching\<close>

text \<open>What a successful \<open>exec\<close> says: the match is the head of the matcher's list at
  the first index, from \<open>lastIndex\<close> on, where that list is not empty.\<close>

lemma regexExec_SomeD:
  "regexExec re s i = Some m \<Longrightarrow>
     i \<le> m_index m \<and> m_index m \<le> length s \<and>
     (\<exists>y ys. ms re s \<lparr>endIndex = m_index m, captures = \<lambda>_. None\<rparr> = y # ys \<and> m_end m = endIndex y \<and> m_groups m = captures y) \<and>
     (\<forall>j. i \<le> j \<and> j < m_index m \<longrightarrow> ms re s \<lparr>endIndex = j, captures = \<lambda>_. None\<rparr> = [])"
proof (induction re s i rule: regexExec.induct)
  case (1 re s i)
  note u = regexExec_unfold [OF "1.prems"]
  show ?case
  proof (cases "ms re s \<lparr>endIndex = i, captures = \<lambda>_. None\<rparr>")
    case Nil
    with u have nx: "regexExec re s (i + 1) = Some m" and le: "\<not> length s < i" by auto
    note ih = "1.IH" [OF le Nil nx]
    have "ms re s \<lparr>endIndex = j, captures = \<lambda>_. None\<rparr> = []" if "i \<le> j" "j < m_index m" for j
    proof (cases "j = i")
      case True
      with Nil show ?thesis by simp
    next
      case False
      with that have "i + 1 \<le> j" by simp
      with ih that show ?thesis by blast
    qed
    with ih show ?thesis by auto
  next
    case (Cons y ys)
    with u show ?thesis by auto
  qed
qed


text \<open>\<open>minCount r c\<close>: a number of occurrences of the character \<open>c\<close> that every match
  of \<open>r\<close> contains.\<close>

fun minCount :: "regex \<Rightarrow> char \<Rightarrow> nat" where
  "minCount (Lit d) c = (if d = c then 1 else 0)"
| "minCount (Cat r1 r2) c = minCount r1 c + minCount r2 c"
| "minCount (Alt r1 r2) c = min (minCount r1 c) (minCount r2 c)"
| "minCount (Rep mn mx g r) c = (if mn = 0 \<or> mx = Some 0 then 0 else minCount r c)"
| "minCount (Grp k r) c = minCount r c"
| "minCount _ c = 0"

lemma slice_append:
  "a \<le> b \<Longrightarrow> b \<le> c \<Longrightarrow> slice s a c = slice s a b @ slice s b c"
proof -
  assume ab: "a \<le> b" and bc: "b \<le> c"
  have "take (c - a) (drop a s) = take (b - a) (drop a s) @ take (c - b) (drop (b - a) (drop a s))"
    using ab bc by (metis Nat.diff_add_assoc2 add_diff_cancel_left' le_add_diff_inverse take_add)
  then show ?thesis using ab by (simp add: slice_def)
qed

lemma slice_single: "a < length s \<Longrightarrow> slice s a (Suc a) = [s ! a]"
  by (simp add: slice_def take_Suc hd_drop_conv_nth)

lemma count_slice_mono:
  "a \<le> b \<Longrightarrow> b \<le> c \<Longrightarrow> count_list (slice s a b) ch \<le> count_list (slice s a c) ch"
  by (simp add: slice_append [of a b c])

lemma ms_minCount:
  "y \<in> set (ms r s x) \<Longrightarrow> endIndex x \<le> length s \<Longrightarrow>
   minCount r c \<le> count_list (slice s (endIndex x) (endIndex y)) c"
proof (induction r arbitrary: x y)
  case (Lit d)
  then show ?case by (auto split: if_splits simp: slice_single)
next
  case (Cat r1 r2)
  from Cat.prems(1) obtain z where z: "z \<in> set (ms r1 s x)" and y: "y \<in> set (ms r2 s z)"
    by auto
  from ms_bounds [OF z Cat.prems(2)] have b1: "endIndex x \<le> endIndex z" "endIndex z \<le> length s" by auto
  from ms_bounds [OF y b1(2)] have b2: "endIndex z \<le> endIndex y" by simp
  from Cat.IH(1) [OF z Cat.prems(2)] Cat.IH(2) [OF y b1(2)] show ?case
    by (simp add: slice_append [OF b1(1) b2])
next
  case (Alt r1 r2)
  from Alt.prems(1) consider "y \<in> set (ms r1 s x)" | "y \<in> set (ms r2 s x)" by auto
  then show ?case
  proof cases
    case 1
    from Alt.IH(1) [OF this Alt.prems(2)] show ?thesis by simp
  next
    case 2
    from Alt.IH(2) [OF this Alt.prems(2)] show ?thesis by simp
  qed
next
  case (Rep mn mx g r)
  show ?case
  proof (cases "mn = 0 \<or> mx = Some 0")
    case True
    then show ?thesis by simp
  next
    case False
    from Rep.prems(1) have "y \<in> set (rep (\<lambda>y. ms r s y) (length s) mn mx g x)" by simp
    from rep_unfold [OF this] False obtain z where z: "z \<in> set (ms r s x)"
      and y: "y \<in> set (rep (\<lambda>y. ms r s y) (length s) (mn - 1) (map_option (\<lambda>k. k - 1) mx) g z)"
      by auto
    from ms_bounds [OF z Rep.prems(2)] have b1: "endIndex x \<le> endIndex z" by simp
    from rep_bounds [OF y] have b2: "endIndex z \<le> endIndex y" by simp
    from Rep.IH [OF z Rep.prems(2)] count_slice_mono [OF b1 b2, of s c] False show ?thesis by simp
  qed
next
  case (Grp k r)
  from Grp.prems(1) obtain z where z: "z \<in> set (ms r s x)" and y: "endIndex y = endIndex z"
    by auto
  from Grp.IH [OF z Grp.prems(2)] y show ?case by simp
qed simp_all

lemma count_slice_le: "count_list (slice s a b) c \<le> count_list s c"
proof -
  have "drop a s = slice s a b @ drop (b - a) (drop a s)"
    unfolding slice_def by (rule append_take_drop_id [symmetric])
  then have "s = take a s @ slice s a b @ drop (b - a) (drop a s)"
    by (metis append_take_drop_id)
  then have "count_list s c = count_list (take a s) c + count_list (slice s a b) c
      + count_list (drop (b - a) (drop a s)) c"
    by (metis add.assoc count_list_append)
  then show ?thesis by simp
qed

lemma regexExec_minCount:
  assumes "regexExec re s i = Some m"
  shows "minCount re c \<le> count_list (m_0 s m) c"
proof -
  from regexExec_SomeD [OF assms] obtain y ys where le: "m_index m \<le> length s"
    and y: "ms re s \<lparr>endIndex = m_index m, captures = \<lambda>_. None\<rparr> = y # ys"
    and e: "m_end m = endIndex y"
    by blast
  from y have "y \<in> set (ms re s \<lparr>endIndex = m_index m, captures = \<lambda>_. None\<rparr>)" by simp
  from ms_minCount [OF this, of c] le e show ?thesis by (simp add: m_0_def)
qed

lemma regexExec_None_count:
  assumes "count_list s c < minCount re c"
  shows "regexExec re s i = None"
proof (cases "regexExec re s i")
  case None
  then show ?thesis .
next
  case (Some m)
  from regexExec_minCount [OF Some, of c] count_slice_le [of s "m_index m" "m_end m" c] assms
  show ?thesis by (simp add: m_0_def)
qed

lemma regexExec_progress:
  assumes "regexExec re s i = Some m" and "0 < minCount re c"
  shows "m_index m < m_end m"
proof (rule ccontr)
  assume "\<not> m_index m < m_end m"
  then have "m_0 s m = []" by (simp add: m_0_def slice_def)
  with regexExec_minCount [OF assms(1), of c] assms(2) show False by simp
qed

lemma matchAllFrom_None: "regexExec re s i = None \<Longrightarrow> matchAllFrom re s i = []"
  by (subst matchAllFrom.simps) simp

lemma matchAll_empty_count: "count_list s c < minCount re c \<Longrightarrow> matchAll re s = []"
  by (simp add: matchAll_def matchAllFrom_None regexExec_None_count)

lemma matchAllFrom_exec:
  "m \<in> set (matchAllFrom re s i) \<Longrightarrow> \<exists>j. i \<le> j \<and> regexExec re s j = Some m"
proof (induction re s i rule: matchAllFrom.induct)
  case (1 re s i)
  show ?case
  proof (cases "regexExec re s i")
    case None
    with "1.prems" show ?thesis by (simp add: matchAllFrom_None)
  next
    case (Some m')
    let ?n = "if m_end m' = m_index m' then m_end m' + 1 else m_end m'"
    from Some have unf: "matchAllFrom re s i = m' # matchAllFrom re s ?n"
      by (subst matchAllFrom.simps) simp
    from regexExec_bounds [OF Some] have le: "i \<le> ?n" by auto
    from "1.prems" unf consider "m = m'" | "m \<in> set (matchAllFrom re s ?n)" by auto
    then show ?thesis
    proof cases
      case 1
      with Some show ?thesis by auto
    next
      case 2
      from "1.IH" [OF Some 2] le show ?thesis by (meson le_trans)
    qed
  qed
qed

lemma matchAll_exec: "m \<in> set (matchAll re s) \<Longrightarrow> \<exists>j. regexExec re s j = Some m"
  using matchAllFrom_exec [of m re s 0] by (auto simp: matchAll_def)

text \<open>The matches of one pattern come in document order and do not overlap.\<close>

lemma matchAllFrom_sorted:
  "sorted_wrt (\<lambda>a b. m_index a < m_index b \<and> m_end a \<le> m_index b) (matchAllFrom re s i)"
proof (induction re s i rule: matchAllFrom.induct)
  case (1 re s i)
  show ?case
  proof (cases "regexExec re s i")
    case None
    then show ?thesis by (simp add: matchAllFrom_None)
  next
    case (Some m')
    let ?n = "if m_end m' = m_index m' then m_end m' + 1 else m_end m'"
    from Some have unf: "matchAllFrom re s i = m' # matchAllFrom re s ?n"
      by (subst matchAllFrom.simps) simp
    from regexExec_bounds [OF Some] have b: "m_index m' \<le> m_end m'" by simp
    have "m_index m' < m_index b \<and> m_end m' \<le> m_index b" if "b \<in> set (matchAllFrom re s ?n)" for b
    proof -
      from matchAllFrom_exec [OF that] obtain j where j: "?n \<le> j" "regexExec re s j = Some b" by blast
      from regexExec_bounds [OF j(2)] j(1) b show ?thesis by (auto split: if_splits)
    qed
    with "1.IH" [OF Some] unf show ?thesis by simp
  qed
qed

lemma rep_invariant:
  "(\<And>x z. P x \<Longrightarrow> z \<in> set (m x) \<Longrightarrow> P z) \<Longrightarrow> P x \<Longrightarrow> y \<in> set (rep m n mn mx g x) \<Longrightarrow> P y"
proof (induction m n mn mx g x arbitrary: y rule: rep.induct)
  case (1 m n mn mx g x)
  note step' = "1.prems"(1)
  from rep_unfold [OF "1.prems"(3)] consider
    (stop) "y = x"
    | (iter) z where "mx \<noteq> Some 0" "z \<in> set (m x)" "endIndex x \<le> endIndex z" "endIndex z \<le> n"
        "mn = 0 \<longrightarrow> endIndex x < endIndex z"
        "y \<in> set (rep m n (mn - 1) (map_option (\<lambda>k. k - 1) mx) g z)"
    by blast
  then show ?case
  proof cases
    case stop
    with "1.prems"(2) show ?thesis by simp
  next
    case iter
    from step' [OF "1.prems"(2) iter(2)] have pz: "P z" .
    show ?thesis
    proof (cases "mn = 0")
      case True
      show ?thesis
      proof (cases g)
        case True
        with \<open>mn = 0\<close> iter have "z \<in> set (filter (\<lambda>y. endIndex x < endIndex y \<and> endIndex y \<le> n) (m x))"
          by simp
        from "1.IH"(2) [OF iter(1) _ True this step' pz] \<open>mn = 0\<close> iter(6) show ?thesis by simp
      next
        case False
        with \<open>mn = 0\<close> iter have "z \<in> set (filter (\<lambda>y. endIndex x < endIndex y \<and> endIndex y \<le> n) (m x))"
          by simp
        from "1.IH"(3) [OF iter(1) _ False this step' pz] \<open>mn = 0\<close> iter(6) show ?thesis by simp
      qed
    next
      case False
      with iter have "z \<in> set (filter (\<lambda>y. endIndex x \<le> endIndex y \<and> endIndex y \<le> n) (m x))"
        by simp
      from "1.IH"(1) [OF iter(1) False this step' pz] iter(6) show ?thesis by simp
    qed
  qed
qed

lemma ms_BackRefD:
  assumes "y \<in> set (ms (BackRef j) s x)"
  shows "captures y = captures x \<and>
     (case captures x j of
        None \<Rightarrow> endIndex y = endIndex x
      | Some t \<Rightarrow> slice s (endIndex x) (endIndex x + length t) = t \<and> endIndex y = endIndex x + length t)"
proof (cases "captures x j")
  case None
  with assms show ?thesis by simp
next
  case (Some t)
  show ?thesis
  proof (cases "slice s (endIndex x) (endIndex x + length t) = t")
    case True
    have "ms (BackRef j) s x = [x\<lparr>endIndex := endIndex x + length t\<rparr>]"
      unfolding ms.simps Some option.case using True by (rule if_P)
    with assms have "y = x\<lparr>endIndex := endIndex x + length t\<rparr>" by simp
    then have "captures y = captures x" "endIndex y = endIndex x + length t" by simp_all
    with True show ?thesis unfolding Some option.case by blast
  next
    case False
    have "ms (BackRef j) s x = []"
      unfolding ms.simps Some option.case using False by (rule if_not_P)
    with assms show ?thesis by simp
  qed
qed

text \<open>\<open>definesGroup r k\<close>: every match of \<open>r\<close> sets group \<open>k\<close>; \<open>hasGroup r k\<close>: the
  group occurs in \<open>r\<close>.\<close>

fun definesGroup :: "regex \<Rightarrow> nat \<Rightarrow> bool" where
  "definesGroup (Grp j r) k = (j = k \<or> definesGroup r k)"
| "definesGroup (Cat r1 r2) k = (definesGroup r1 k \<or> definesGroup r2 k)"
| "definesGroup (Alt r1 r2) k = (definesGroup r1 k \<and> definesGroup r2 k)"
| "definesGroup _ k = False"

fun hasGroup :: "regex \<Rightarrow> nat \<Rightarrow> bool" where
  "hasGroup (Grp j r) k = (j = k \<or> hasGroup r k)"
| "hasGroup (Cat r1 r2) k = (hasGroup r1 k \<or> hasGroup r2 k)"
| "hasGroup (Alt r1 r2) k = (hasGroup r1 k \<or> hasGroup r2 k)"
| "hasGroup (Rep mn mx g r) k = hasGroup r k"
| "hasGroup _ k = False"

lemma ms_captures_kept:
  "captures x k \<noteq> None \<Longrightarrow> y \<in> set (ms r s x) \<Longrightarrow> captures y k \<noteq> None"
proof (induction r arbitrary: x y)
  case (Lit c)
  from Lit(2) have "y = x\<lparr>endIndex := endIndex x + 1\<rparr>" by (simp split: if_splits)
  with Lit(1) show ?case by simp
next
  case (Cls P)
  from Cls(2) have "y = x\<lparr>endIndex := endIndex x + 1\<rparr>" by (simp split: if_splits)
  with Cls(1) show ?case by simp
next
  case (Cat r1 r2)
  from Cat.prems(2) obtain z where z: "z \<in> set (ms r1 s x)" and y: "y \<in> set (ms r2 s z)"
    by auto
  from Cat.IH(2) [OF Cat.IH(1) [OF Cat.prems(1) z] y] show ?case .
next
  case (Alt r1 r2)
  from Alt.prems(2) consider "y \<in> set (ms r1 s x)" | "y \<in> set (ms r2 s x)" by auto
  then show ?case
  proof cases
    case 1
    from Alt.IH(1) [OF Alt.prems(1) this] show ?thesis .
  next
    case 2
    from Alt.IH(2) [OF Alt.prems(1) this] show ?thesis .
  qed
next
  case (Rep mn mx g r)
  from Rep.prems(2) have y: "y \<in> set (rep (\<lambda>y. ms r s y) (length s) mn mx g x)" by simp
  show ?case
  proof (rule rep_invariant [where P = "\<lambda>x. captures x k \<noteq> None", OF _ Rep.prems(1) y])
    fix x' z assume "captures x' k \<noteq> None" "z \<in> set (ms r s x')"
    then show "captures z k \<noteq> None" by (rule Rep.IH)
  qed
next
  case (Grp j r)
  from Grp.prems(2) obtain z where z: "z \<in> set (ms r s x)"
    and y: "captures y = (captures z)(j := Some (slice s (endIndex x) (endIndex z)))"
    by auto
  from Grp.IH [OF Grp.prems(1) z] y show ?case by simp
next
  case (BackRef j)
  from ms_BackRefD [OF BackRef.prems(2)] BackRef.prems(1) show ?case by simp
qed (simp_all split: if_splits)

lemma ms_defines:
  "definesGroup r k \<Longrightarrow> y \<in> set (ms r s x) \<Longrightarrow> captures y k \<noteq> None"
proof (induction r arbitrary: x y)
  case (Cat r1 r2)
  from Cat.prems(2) obtain z where z: "z \<in> set (ms r1 s x)" and y: "y \<in> set (ms r2 s z)"
    by auto
  show ?case
  proof (cases "definesGroup r1 k")
    case True
    from ms_captures_kept [OF Cat.IH(1) [OF True z] y] show ?thesis .
  next
    case False
    with Cat.prems(1) have "definesGroup r2 k" by simp
    from Cat.IH(2) [OF this y] show ?thesis .
  qed
next
  case (Alt r1 r2)
  then show ?case by auto
next
  case (Grp j r)
  from Grp.prems(2) obtain z where z: "z \<in> set (ms r s x)"
    and y: "captures y = (captures z)(j := Some (slice s (endIndex x) (endIndex z)))"
    by auto
  show ?case
  proof (cases "j = k")
    case True
    with y show ?thesis by simp
  next
    case False
    with Grp.prems(1) have "definesGroup r k" by simp
    from Grp.IH [OF this z] y show ?thesis by simp
  qed
qed simp_all

lemma ms_captures_same:
  "\<not> hasGroup r k \<Longrightarrow> y \<in> set (ms r s x) \<Longrightarrow> captures y k = captures x k"
proof (induction r arbitrary: x y)
  case (Cat r1 r2)
  from Cat.prems(2) obtain z where z: "z \<in> set (ms r1 s x)" and y: "y \<in> set (ms r2 s z)"
    by auto
  from Cat.IH(1) [OF _ z] Cat.IH(2) [OF _ y] Cat.prems(1) show ?case by simp
next
  case (Alt r1 r2)
  then show ?case by auto
next
  case (Rep mn mx g r)
  from Rep.prems(2) have y: "y \<in> set (rep (\<lambda>y. ms r s y) (length s) mn mx g x)" by simp
  have "captures y k = captures x k"
  proof (rule rep_invariant [where P = "\<lambda>z. captures z k = captures x k", OF _ _ y])
    show "captures x k = captures x k" ..
    fix x' z assume "captures x' k = captures x k" "z \<in> set (ms r s x')"
    with Rep.IH [of z x'] Rep.prems(1) show "captures z k = captures x k" by simp
  qed
  then show ?case .
next
  case (Grp j r)
  from Grp.prems(2) obtain z where z: "z \<in> set (ms r s x)"
    and y: "captures y = (captures z)(j := Some (slice s (endIndex x) (endIndex z)))"
    by auto
  from Grp.IH [OF _ z] Grp.prems(1) y show ?case by simp
next
  case (BackRef j)
  from ms_BackRefD [OF BackRef.prems(2)] BackRef.prems(1) show ?case by simp
qed (auto split: if_splits)

lemma regexExec_defines:
  assumes "regexExec re s i = Some m" and "definesGroup re k"
  shows "m_groups m k \<noteq> None"
proof -
  from regexExec_SomeD [OF assms(1)] obtain y ys where
    y: "ms re s \<lparr>endIndex = m_index m, captures = \<lambda>_. None\<rparr> = y # ys"
    and g: "m_groups m = captures y"
    by blast
  from y have "y \<in> set (ms re s \<lparr>endIndex = m_index m, captures = \<lambda>_. None\<rparr>)" by simp
  from ms_defines [OF assms(2) this] g show ?thesis by simp
qed

text \<open>
  When no match of the pattern is empty and the body never raises, the \<open>exec\<close> loop ends
  and has run the body over the matches that \<open>matchAll\<close> lists, in that order.
\<close>

lemma execWhile_fold:
  assumes prog: "\<And>j m. regexExec re s j = Some m \<Longrightarrow> m_index m < m_end m"
    and ok: "\<And>j m st. regexExec re s j = Some m \<Longrightarrow> body m st = Inr (f m st)"
  shows "execWhile re s body i st = Some (Inr (fold f (matchAllFrom re s i) st))"
  using assms
proof (induction re s i arbitrary: st rule: matchAllFrom.induct)
  case (1 re s i)
  show ?case
  proof (cases "regexExec re s i")
    case None
    then show ?thesis by (subst execWhile.simps) (simp add: matchAllFrom_None)
  next
    case (Some m)
    from "1.prems"(1) [OF Some] have ne: "m_end m \<noteq> m_index m" by simp
    from Some ne have unf: "matchAllFrom re s i = m # matchAllFrom re s (m_end m)"
      by (subst matchAllFrom.simps) simp
    from "1.IH" [OF Some "1.prems"] ne
    have ih: "execWhile re s body (m_end m) (f m st) = Some (Inr (fold f (matchAllFrom re s (m_end m)) (f m st)))"
      by simp
    show ?thesis
      by (subst execWhile.simps) (simp add: Some "1.prems"(2) [OF Some] ih unf)
  qed
qed

text \<open>What a match of a sequence, a literal, a look-behind, a group or an optional literal
  looks like, and where a character that every match contains can be found.\<close>

lemma in_ms_Cat:
  "y \<in> set (ms (Cat r1 r2) s x) \<longleftrightarrow> (\<exists>z \<in> set (ms r1 s x). y \<in> set (ms r2 s z))"
  by simp

lemma in_ms_LitD:
  assumes "y \<in> set (ms (Lit c) s x)"
  shows "endIndex x < length s \<and> s ! endIndex x = c \<and> y = x\<lparr>endIndex := endIndex x + 1\<rparr>"
proof (cases "endIndex x < length s \<and> s ! endIndex x = c")
  case True
  have eq: "ms (Lit c) s x = [x\<lparr>endIndex := endIndex x + 1\<rparr>]"
    unfolding ms.simps using True by (rule if_P)
  from assms have "y \<in> set [x\<lparr>endIndex := endIndex x + 1\<rparr>]" unfolding eq .
  then have "y = x\<lparr>endIndex := endIndex x + 1\<rparr>" by simp
  with True show ?thesis by blast
next
  case False
  have eq: "ms (Lit c) s x = []"
    unfolding ms.simps using False by (rule if_not_P)
  from assms have "y \<in> set []" unfolding eq .
  then show ?thesis by simp
qed


lemma in_ms_NotBehindD:
  assumes "y \<in> set (ms (NotBehind c) s x)"
  shows "y = x \<and> \<not> (0 < endIndex x \<and> s ! (endIndex x - 1) = c)"
proof (cases "0 < endIndex x \<and> s ! (endIndex x - 1) = c")
  case True
  have eq: "ms (NotBehind c) s x = []"
    unfolding ms.simps using True by (rule if_P)
  from assms have "y \<in> set []" unfolding eq .
  then show ?thesis by simp
next
  case False
  have eq: "ms (NotBehind c) s x = [x]"
    unfolding ms.simps using False by (rule if_not_P)
  from assms have "y \<in> set [x]" unfolding eq .
  then have "y = x" by simp
  with False show ?thesis by blast
qed

lemma not_behind_literal:
  assumes "y \<in> set (ms (Cat (NotBehind c) (Cat (Lit d) r)) s x)"
  shows "endIndex x < length s \<and> s ! endIndex x = d \<and> \<not> (0 < endIndex x \<and> s ! (endIndex x - 1) = c)"
proof -
  from assms obtain z1 z2 where z1: "z1 \<in> set (ms (NotBehind c) s x)"
    and z2: "z2 \<in> set (ms (Lit d) s z1)"
    unfolding in_ms_Cat by blast
  from in_ms_NotBehindD [OF z1] in_ms_LitD [OF z2] show ?thesis by blast
qed

lemma first_literal:
  assumes "y \<in> set (ms (Cat (Lit d) r) s x)"
  shows "endIndex x < length s \<and> s ! endIndex x = d"
proof -
  from assms obtain z where "z \<in> set (ms (Lit d) s x)" unfolding in_ms_Cat by blast
  from in_ms_LitD [OF this] show ?thesis by blast
qed

lemma in_ms_GrpD:
  "y \<in> set (ms (Grp k r) s x) \<Longrightarrow>
     \<exists>z \<in> set (ms r s x). captures y k = Some (slice s (endIndex x) (endIndex z)) \<and> endIndex y = endIndex z"
  by auto

lemma three_literals:
  assumes "z \<in> set (ms (cats [Lit a, Lit b, Lit c]) s x)"
  shows "endIndex z = endIndex x + 3 \<and> slice s (endIndex x) (endIndex x + 3) = [a, b, c]"
proof -
  from assms obtain z1 z2 z3 where z1: "z1 \<in> set (ms (Lit a) s x)"
    and z2: "z2 \<in> set (ms (Lit b) s z1)" and z3: "z3 \<in> set (ms (Lit c) s z2)"
    and z: "z \<in> set (ms Empty s z3)"
    unfolding cats_def foldr.simps o_apply id_apply in_ms_Cat by blast
  note d1 = in_ms_LitD [OF z1] and d2 = in_ms_LitD [OF z2] and d3 = in_ms_LitD [OF z3]
  from d1 have e1: "endIndex z1 = endIndex x + 1" by simp
  from d2 e1 have e2: "endIndex z2 = endIndex x + 2" by simp
  from d3 e2 have e3: "endIndex z3 = endIndex x + 3" by simp
  from z have zz: "z = z3" by simp
  from d1 have c1: "s ! endIndex x = a" by blast
  from d2 e1 have c2: "s ! (endIndex x + 1) = b" by metis
  from d3 e2 have c3: "s ! (endIndex x + 2) = c" and l: "endIndex x + 2 < length s" by metis+
  let ?e = "endIndex x"
  have "slice s ?e (?e + 3) = take 3 (drop ?e s)" by (simp add: slice_def)
  also have "drop ?e s = s ! ?e # s ! (?e + 1) # s ! (?e + 2) # drop (?e + 3) s"
    using l by (simp add: Cons_nth_drop_Suc [symmetric] numeral_3_eq_3)
  finally have "slice s ?e (?e + 3) = [s ! ?e, s ! (?e + 1), s ! (?e + 2)]"
    by (simp add: numeral_3_eq_3)
  with c1 c2 c3 zz e3 show ?thesis by metis
qed

lemma rep_zero: "rep m n mn (Some 0) g x = [x]"
  by (subst rep.simps) simp

lemma opt_Lit:
  "ms (opt (Lit c)) s x =
     (if endIndex x < length s \<and> s ! endIndex x = c then [x\<lparr>endIndex := endIndex x + 1\<rparr>, x] else [x])"
proof -
  have u: "ms (opt (Lit c)) s x = rep (\<lambda>y. ms (Lit c) s y) (length s) 0 (Some 1) True x"
    by (simp only: opt_def ms.simps(6))
  show ?thesis
  proof (cases "endIndex x < length s \<and> s ! endIndex x = c")
    case True
    then have l: "ms (Lit c) s x = [x\<lparr>endIndex := endIndex x + 1\<rparr>]"
      unfolding ms.simps by (rule if_P)
    have "rep (\<lambda>y. ms (Lit c) s y) (length s) 0 (Some 1) True x = [x\<lparr>endIndex := endIndex x + 1\<rparr>, x]"
      using conjunct1 [OF True] by (subst rep.simps) (simp add: l rep_zero del: ms.simps)
    then show ?thesis unfolding u by (simp only: if_P [OF True])
  next
    case False
    then have l: "ms (Lit c) s x = []"
      unfolding ms.simps by (rule if_not_P)
    have "rep (\<lambda>y. ms (Lit c) s y) (length s) 0 (Some 1) True x = [x]"
      by (subst rep.simps) (simp add: l del: ms.simps)
    then show ?thesis unfolding u by (simp only: if_not_P [OF False])
  qed
qed

lemma count_pos_index:
  assumes "0 < count_list (slice s a b) c"
  shows "\<exists>q. a \<le> q \<and> q < b \<and> q < length s \<and> s ! q = c"
proof -
  have "count_list (slice s a b) c \<noteq> 0" using assms by simp
  then have "c \<in> set (take (b - a) (drop a s))"
    unfolding count_list_0_iff slice_def by simp
  then obtain i where i: "i < length (take (b - a) (drop a s))" "take (b - a) (drop a s) ! i = c"
    unfolding in_set_conv_nth by blast
  from i(1) have b: "i < b - a" "a + i < length s" by auto
  from i b have "drop a s ! i = c" by simp
  with b(2) have "s ! (a + i) = c" by (simp add: nth_drop)
  with b show ?thesis by (intro exI [of _ "a + i"]) auto
qed

lemma regexExec_contains:
  assumes "regexExec re s j = Some m" and "0 < minCount re c"
  shows "\<exists>q. m_index m \<le> q \<and> q < m_end m \<and> q < length s \<and> s ! q = c"
proof -
  from regexExec_minCount [OF assms(1), of c] assms(2)
  have "0 < count_list (slice s (m_index m) (m_end m)) c" by (simp add: m_0_def)
  from count_pos_index [OF this] show ?thesis .
qed


lemma count_list_absent: "c \<notin> set s \<Longrightarrow> count_list s c = 0"
  by (simp add: count_list_0_iff)

section \<open>The passes of the extractor\<close>

text \<open>
  The occurrences each pass contributes, named after the specification: for one match of
  the pass's pattern, the list of the pairs the pass pushes for it (none or one), and for a
  document the occurrences of all matches in the order of \<open>matchAll\<close>. \<open>harvested\<close> is the
  lookup table of pass 1.
\<close>

definition inlineOcc :: "rmatch \<Rightarrow> MarkdownLink list" where
  "inlineOcc m =
     (if m_groups m 3 \<noteq> None then []
      else
        (let u = inlineUrl (trim (groupOrEmpty m 2))
         in if u = [] then [] else [\<lparr>title = trim (groupOrEmpty m 1), url = u\<rparr>]))"

definition autolinkOcc :: "rmatch \<Rightarrow> MarkdownLink list" where
  "autolinkOcc m =
     (let u = trim (groupOrEmpty m 1) in if u = [] then [] else [\<lparr>title = [], url = u\<rparr>])"

definition refIdent :: "rmatch \<Rightarrow> string" where
  "refIdent m =
     toLowerCase (if trim (groupOrEmpty m 2) \<noteq> [] then trim (groupOrEmpty m 2)
                  else trim (groupOrEmpty m 1))"

definition refOcc :: "(string \<rightharpoonup> string) \<Rightarrow> rmatch \<Rightarrow> MarkdownLink list" where
  "refOcc references m =
     (if m_groups m 3 \<noteq> None then []
      else
        (case references (refIdent m) of
           None \<Rightarrow> []
         | Some u \<Rightarrow> if u = [] then [] else [\<lparr>title = trim (groupOrEmpty m 1), url = u\<rparr>]))"

definition harvestStep :: "rmatch \<Rightarrow> (string \<rightharpoonup> string) \<Rightarrow> (string \<rightharpoonup> string)" where
  "harvestStep m references =
     references(toLowerCase (trim (groupOrEmpty m 1)) \<mapsto> trim (groupOrEmpty m 2))"

definition harvested :: "string \<Rightarrow> (string \<rightharpoonup> string)" where
  "harvested markdown = fold harvestStep (matchAll refDefRe markdown) Map.empty"

definition inlineOccurrences :: "string \<Rightarrow> MarkdownLink list" where
  "inlineOccurrences markdown = concat (map inlineOcc (matchAll inlineLinkRe markdown))"

definition autolinkOccurrences :: "string \<Rightarrow> MarkdownLink list" where
  "autolinkOccurrences markdown = concat (map autolinkOcc (matchAll autolinkRe markdown))"

definition referenceOccurrences :: "string \<Rightarrow> MarkdownLink list" where
  "referenceOccurrences markdown =
     concat (map (refOcc (harvested markdown)) (matchAll refLinkRe markdown))"

text \<open>No match of the extractor's four patterns is empty, and the groups whose
  \<open>trim\<close> could raise always take part in a match.\<close>

lemma minCount_refDefRe: "minCount refDefRe CHR ''['' = 1"
  by (simp add: refDefRe_def cats_def plus_def star_def opt_def lazyStar_def space_def
      notOneOf_def oneOf_def notSpaceNor_def dot_def)

lemma minCount_inlineLinkRe: "minCount inlineLinkRe CHR ''['' = 1"
  by (simp add: inlineLinkRe_def cats_def plus_def star_def notOneOf_def)

lemma minCount_autolinkRe: "minCount autolinkRe CHR ''<'' = 1"
  by (simp add: autolinkRe_def cats_def plus_def star_def notSpaceNor_def letter_def schemeChar_def)

lemma minCount_refLinkRe: "minCount refLinkRe CHR ''['' = 2"
  by (simp add: refLinkRe_def cats_def plus_def star_def notOneOf_def)

lemma defines_refDefRe: "definesGroup refDefRe 1" "definesGroup refDefRe 2"
  by (simp_all add: refDefRe_def cats_def)

lemma defines_autolinkRe: "definesGroup autolinkRe 1"
  by (simp add: autolinkRe_def cats_def)

lemma push_append:
  "push results t u = results @ (if u = [] then [] else [\<lparr>title = t, url = u\<rparr>])"
  by (simp add: push_def)

lemma inlineBody_occ: "inlineBody m results = Inr (results @ inlineOcc m)"
  by (simp add: inlineBody_def inlineOcc_def Let_def push_append)

lemma refBody_occ: "refBody references m results = Inr (results @ refOcc references m)"
  by (simp add: refBody_def refOcc_def refIdent_def Let_def push_append split: option.splits)

lemma autolinkBody_occ:
  assumes "regexExec autolinkRe s j = Some m"
  shows "autolinkBody m results = Inr (results @ autolinkOcc m)"
proof -
  from regexExec_defines [OF assms defines_autolinkRe] obtain g where "m_groups m 1 = Some g"
    by auto
  then show ?thesis
    by (simp add: autolinkBody_def autolinkOcc_def groupOrEmpty_def Let_def push_append)
qed

lemma harvestBody_step:
  assumes "regexExec refDefRe s j = Some m"
  shows "harvestBody m references = Inr (harvestStep m references)"
proof -
  from regexExec_defines [OF assms defines_refDefRe(1)] obtain g1 where g1: "m_groups m 1 = Some g1"
    by auto
  from regexExec_defines [OF assms defines_refDefRe(2)] obtain g2 where g2: "m_groups m 2 = Some g2"
    by auto
  from g1 g2 show ?thesis
    by (simp add: harvestBody_def harvestStep_def groupOrEmpty_def)
qed

lemma fold_append_concat:
  "fold (\<lambda>m acc. acc @ g m) xs init = init @ concat (map g xs)"
  by (induction xs arbitrary: init) simp_all

text \<open>The extractor always returns, and returns the three passes' occurrences in a row.\<close>

lemma extractMarkdownLinks_passes:
  "extractMarkdownLinks markdown =
     Some (Inr (inlineOccurrences markdown @ autolinkOccurrences markdown
                @ referenceOccurrences markdown))"
proof -
  have p1: "execWhile refDefRe markdown harvestBody 0 Map.empty = Some (Inr (harvested markdown))"
    unfolding harvested_def matchAll_def
    by (rule execWhile_fold)
       (auto intro: regexExec_progress [where c = "CHR ''[''"] harvestBody_step
             simp: minCount_refDefRe)
  have p2: "execWhile inlineLinkRe markdown inlineBody 0 [] = Some (Inr (inlineOccurrences markdown))"
    using execWhile_fold [of inlineLinkRe markdown inlineBody "\<lambda>m acc. acc @ inlineOcc m" 0 "[]"]
    by (simp add: inlineOccurrences_def matchAll_def fold_append_concat inlineBody_occ
          regexExec_progress [where c = "CHR ''[''"] minCount_inlineLinkRe)
  have p3: "execWhile autolinkRe markdown autolinkBody 0 results
      = Some (Inr (results @ autolinkOccurrences markdown))" for results
    using execWhile_fold [of autolinkRe markdown autolinkBody "\<lambda>m acc. acc @ autolinkOcc m" 0 results]
    by (simp add: autolinkOccurrences_def matchAll_def fold_append_concat autolinkBody_occ
          regexExec_progress [where c = "CHR ''<''"] minCount_autolinkRe)
  have p4: "execWhile refLinkRe markdown (refBody references) 0 results
      = Some (Inr (results @ concat (map (refOcc references) (matchAll refLinkRe markdown))))"
    for results references
    using execWhile_fold [of refLinkRe markdown "refBody references"
        "\<lambda>m acc. acc @ refOcc references m" 0 results]
    by (simp add: matchAll_def fold_append_concat refBody_occ
          regexExec_progress [where c = "CHR ''[''"] minCount_refLinkRe)
  show ?thesis
    by (simp add: extractMarkdownLinks_def andThen_def p1 p2 p3 p4 referenceOccurrences_def)
qed

lemma matchAll_sorted: "sorted_wrt (\<lambda>a b. m_index a < m_index b) (matchAll re s)"
  unfolding matchAll_def
  by (rule sorted_wrt_mono_rel [OF _ matchAllFrom_sorted]) simp

lemma inlineOcc_url: "l \<in> set (inlineOcc m) \<Longrightarrow> url l \<noteq> []"
  by (auto simp: inlineOcc_def Let_def split: if_splits)

lemma autolinkOcc_url: "l \<in> set (autolinkOcc m) \<Longrightarrow> url l \<noteq> []"
  by (auto simp: autolinkOcc_def Let_def split: if_splits)

lemma refOcc_url: "l \<in> set (refOcc references m) \<Longrightarrow> url l \<noteq> []"
  by (auto simp: refOcc_def Let_def split: if_splits option.splits)

text \<open>
  Claim C5. For every document the extractor returns the inline-link occurrences, then the
  autolink occurrences, then the reference-style occurrences, each group in document order
  (the matches of one pattern have increasing indices). The list is not sorted by offset
  across the groups: in \<open><x:y> [a](b)\<close> the autolink starts at offset 0 and the inline link
  at offset 6, and the inline link comes first.
\<close>

theorem extractor_output_grouped_by_pass:
  "extractMarkdownLinks markdown =
     Some (Inr (inlineOccurrences markdown @ autolinkOccurrences markdown
                @ referenceOccurrences markdown))
   \<and> sorted_wrt (\<lambda>a b. m_index a < m_index b) (matchAll inlineLinkRe markdown)
   \<and> sorted_wrt (\<lambda>a b. m_index a < m_index b) (matchAll autolinkRe markdown)
   \<and> sorted_wrt (\<lambda>a b. m_index a < m_index b) (matchAll refLinkRe markdown)
   \<and> map m_index (matchAll autolinkRe ''<x:y> [a](b)'') = [0]
   \<and> map m_index (matchAll inlineLinkRe ''<x:y> [a](b)'') = [6]
   \<and> extractMarkdownLinks ''<x:y> [a](b)''
       = Some (Inr [\<lparr>title = ''a'', url = ''b''\<rparr>, \<lparr>title = [], url = ''x:y''\<rparr>])"
proof -
  have "map m_index (matchAll autolinkRe ''<x:y> [a](b)'') = [0]" by code_simp
  moreover have "map m_index (matchAll inlineLinkRe ''<x:y> [a](b)'') = [6]" by code_simp
  moreover have "extractMarkdownLinks ''<x:y> [a](b)''
       = Some (Inr [\<lparr>title = ''a'', url = ''b''\<rparr>, \<lparr>title = [], url = ''x:y''\<rparr>])"
    by code_simp
  ultimately show ?thesis
    by (simp only: extractMarkdownLinks_passes matchAll_sorted simp_thms)
qed

theorem extractor_output_grouped_by_pass_witness:
  "inlineOccurrences ''[a](b) <x:y> [c](d)'' = [\<lparr>title = ''a'', url = ''b''\<rparr>, \<lparr>title = ''c'', url = ''d''\<rparr>]
   \<and> autolinkOccurrences ''[a](b) <x:y> [c](d)'' = [\<lparr>title = [], url = ''x:y''\<rparr>]
   \<and> referenceOccurrences ''[a](b) <x:y> [c](d)'' = []
   \<and> extractMarkdownLinks ''[a](b) <x:y> [c](d)''
       = Some (Inr [\<lparr>title = ''a'', url = ''b''\<rparr>, \<lparr>title = ''c'', url = ''d''\<rparr>, \<lparr>title = [], url = ''x:y''\<rparr>])"
proof -
  have a: "inlineOccurrences ''[a](b) <x:y> [c](d)'' = [\<lparr>title = ''a'', url = ''b''\<rparr>, \<lparr>title = ''c'', url = ''d''\<rparr>]"
    by code_simp
  have b: "autolinkOccurrences ''[a](b) <x:y> [c](d)'' = [\<lparr>title = [], url = ''x:y''\<rparr>]"
    by code_simp
  have c: "referenceOccurrences ''[a](b) <x:y> [c](d)'' = []"
    by code_simp
  from extractor_output_grouped_by_pass [of "''[a](b) <x:y> [c](d)''"]
  show ?thesis unfolding a b c by simp
qed

text \<open>
  Claim C9. For every document the extractor returns a list, and no pair of the list has
  an empty \<open>url\<close>: \<open>push\<close> discards an empty URL whatever the construct class.
\<close>

theorem extractor_urls_never_empty:
  "\<exists>results. extractMarkdownLinks markdown = Some (Inr results) \<and> (\<forall>l \<in> set results. url l \<noteq> [])"
  by (auto simp: extractMarkdownLinks_passes inlineOccurrences_def autolinkOccurrences_def
        referenceOccurrences_def dest: inlineOcc_url autolinkOcc_url refOcc_url)

theorem extractor_urls_never_empty_witness:
  "extractMarkdownLinks ''[a](b) [c]( )'' = Some (Inr [\<lparr>title = ''a'', url = ''b''\<rparr>])
   \<and> url \<lparr>title = ''a'', url = ''b''\<rparr> \<noteq> []"
proof -
  have e: "extractMarkdownLinks ''[a](b) [c]( )'' = Some (Inr [\<lparr>title = ''a'', url = ''b''\<rparr>])"
    by code_simp
  from extractor_urls_never_empty [of "''[a](b) [c]( )''"] show ?thesis unfolding e by simp
qed

text \<open>
  Claim C1 says that a reference-style link whose id does not resolve is still emitted,
  with an empty URL. In \<open>[a][b]\<close> the reference pattern matches the whole text, no
  definition exists, and the extractor returns the empty list.
\<close>

theorem unresolved_reference_counterexample:
  "map m_index (matchAll refLinkRe ''[a][b]'') = [0]
   \<and> map m_end (matchAll refLinkRe ''[a][b]'') = [6]
   \<and> extractMarkdownLinks ''[a][b]'' = Some (Inr [])"
proof -
  have "map m_index (matchAll refLinkRe ''[a][b]'') = [0]" by code_simp
  moreover have "map m_end (matchAll refLinkRe ''[a][b]'') = [6]" by code_simp
  moreover have "extractMarkdownLinks ''[a][b]'' = Some (Inr [])" by code_simp
  ultimately show ?thesis by simp
qed

text \<open>
  Claim C1, amended. A reference-style match whose id is not among the harvested
  definitions pushes nothing (the loop body leaves \<open>results\<close> as it is), exactly like an
  inline link with an empty URL; when no reference-style match of a document resolves, the
  extractor returns the inline and autolink occurrences only.
\<close>

theorem unresolved_reference_dropped:
  "(references (refIdent m) = None \<longrightarrow> refBody references m results = Inr results)
   \<and> ((\<forall>m \<in> set (matchAll refLinkRe markdown). harvested markdown (refIdent m) = None) \<longrightarrow>
        extractMarkdownLinks markdown
          = Some (Inr (inlineOccurrences markdown @ autolinkOccurrences markdown)))"
proof -
  have "referenceOccurrences markdown = []"
    if "\<forall>m \<in> set (matchAll refLinkRe markdown). harvested markdown (refIdent m) = None"
    using that by (auto simp: referenceOccurrences_def refOcc_def)
  moreover have "refBody references m results = Inr results" if "references (refIdent m) = None"
    using that by (auto simp: refBody_def refIdent_def Let_def push_def split: if_splits)
  ultimately show ?thesis
    by (simp add: extractMarkdownLinks_passes)
qed

theorem unresolved_reference_dropped_witness:
  "map refIdent (matchAll refLinkRe ''[t](u) [a][b]'') = [''b'']
   \<and> harvested ''[t](u) [a][b]'' ''b'' = None
   \<and> refBody (harvested ''[t](u) [a][b]'') (hd (matchAll refLinkRe ''[t](u) [a][b]'')) [] = Inr []
   \<and> extractMarkdownLinks ''[t](u) [a][b]'' = Some (Inr [\<lparr>title = ''t'', url = ''u''\<rparr>])"
proof -
  have i: "map refIdent (matchAll refLinkRe ''[t](u) [a][b]'') = [''b'']" by code_simp
  have h: "harvested ''[t](u) [a][b]'' ''b'' = None" by code_simp
  have o: "inlineOccurrences ''[t](u) [a][b]'' @ autolinkOccurrences ''[t](u) [a][b]''
      = [\<lparr>title = ''t'', url = ''u''\<rparr>]" by code_simp
  from i obtain m0 where m0: "matchAll refLinkRe ''[t](u) [a][b]'' = [m0]" "refIdent m0 = ''b''"
    by (auto simp: map_eq_Cons_conv)
  from unresolved_reference_dropped [of "harvested ''[t](u) [a][b]''" m0 "[]" "''[t](u) [a][b]''"]
    m0 h o i
  show ?thesis by simp
qed

section \<open>Kept hits and exclusion spans\<close>

definition clearOf :: "Range list \<Rightarrow> Hit \<Rightarrow> bool" where
  "clearOf excluded h = (\<forall>r \<in> set excluded. \<not> intersects h r)"

lemma isInsideExcluded_iff:
  "isInsideExcluded (r_start h) (r_end h) excluded = (\<not> clearOf excluded h)"
  by (simp add: isInsideExcluded_def clearOf_def list_ex_iff intersects_def)

lemma linkBody_clear:
  "\<forall>h \<in> set hits. clearOf excluded h \<Longrightarrow> \<forall>h \<in> set (linkBody markdown excluded m hits). clearOf excluded h"
  by (auto simp: linkBody_def Let_def isInsideExcluded_iff)

lemma autolinkHitBody_clear:
  "\<forall>h \<in> set hits. clearOf excluded h \<Longrightarrow> \<forall>h \<in> set (autolinkHitBody markdown excluded m hits). clearOf excluded h"
  by (auto simp: autolinkHitBody_def Let_def isInsideExcluded_iff)

lemma fold_clear:
  assumes "\<And>m hits. \<forall>h \<in> set hits. clearOf excluded h \<Longrightarrow> \<forall>h \<in> set (body m hits). clearOf excluded h"
  shows "\<forall>h \<in> set hits. clearOf excluded h \<Longrightarrow> \<forall>h \<in> set (fold body matches hits). clearOf excluded h"
proof (induction matches arbitrary: hits)
  case Nil
  then show ?case by simp
next
  case (Cons a matches)
  from assms [OF Cons.prems] have "\<forall>h \<in> set (body a hits). clearOf excluded h" .
  from Cons.IH [OF this] show ?case by simp
qed

lemma collectHits_clear: "\<forall>h \<in> set (collectHits markdown excluded). clearOf excluded h"
  unfolding collectHits_def Let_def
  by (intro fold_clear autolinkHitBody_clear linkBody_clear) simp_all

section \<open>The length of the output of the rewriter\<close>

text \<open>
  The quantities of the length formula: \<open>nonOverlapping cursor hits\<close> says that each hit
  starts at or after the end of the one before it (and the first at or after \<open>cursor\<close>);
  \<open>spanLengths\<close> is the total length of the hit spans; \<open>markerLengths i k\<close> is the total
  length of the markers \<open>[i + 1]\<close> to \<open>[i + k]\<close>, each a bracket, decimal digits and a
  bracket.
\<close>

fun nonOverlapping :: "nat \<Rightarrow> Hit list \<Rightarrow> bool" where
  "nonOverlapping cursor [] = True"
| "nonOverlapping cursor (hit # hits) = (cursor \<le> r_start hit \<and> nonOverlapping (r_end hit) hits)"

definition spanLengths :: "Hit list \<Rightarrow> nat" where
  "spanLengths hits = sum_list (map (\<lambda>h. r_end h - r_start h) hits)"

fun markerLengths :: "nat \<Rightarrow> nat \<Rightarrow> nat" where
  "markerLengths i 0 = 0"
| "markerLengths i (Suc k) = length (marker (i + 1)) + markerLengths (i + 1) k"

lemma rangeOf_exec:
  assumes "regexExec re s j = Some m"
  shows "rangeOf s m = \<lparr>r_start = m_index m, r_end = m_end m\<rparr>"
  using regexExec_bounds [OF assms] by (auto simp: rangeOf_def m_0_def slice_def min_def)

lemma rangeOf_matchAll:
  assumes "m \<in> set (matchAll re s)"
  shows "rangeOf s m = \<lparr>r_start = m_index m, r_end = m_end m\<rparr> \<and> m_index m \<le> m_end m \<and> m_end m \<le> length s"
proof -
  from matchAll_exec [OF assms] obtain j where j: "regexExec re s j = Some m" ..
  from rangeOf_exec [OF j] regexExec_bounds [OF j] show ?thesis by simp
qed

definition inBounds :: "string \<Rightarrow> Hit \<Rightarrow> bool" where
  "inBounds s h = (r_start h \<le> r_end h \<and> r_end h \<le> length s)"

lemma fold_linkBody_inBounds:
  "\<forall>m \<in> set matches. inBounds s (rangeOf s m) \<Longrightarrow> \<forall>h \<in> set hits. inBounds s h \<Longrightarrow>
   \<forall>h \<in> set (fold (linkBody s excluded) matches hits). inBounds s h"
proof (induction matches arbitrary: hits)
  case Nil
  then show ?case by simp
next
  case (Cons a matches)
  from Cons.prems have "\<forall>h \<in> set (linkBody s excluded a hits). inBounds s h"
    by (auto simp: linkBody_def Let_def)
  with Cons.IH [of "linkBody s excluded a hits"] Cons.prems(1) show ?case by simp
qed

lemma fold_autolinkHitBody_inBounds:
  "\<forall>m \<in> set matches. inBounds s (rangeOf s m) \<Longrightarrow> \<forall>h \<in> set hits. inBounds s h \<Longrightarrow>
   \<forall>h \<in> set (fold (autolinkHitBody s excluded) matches hits). inBounds s h"
proof (induction matches arbitrary: hits)
  case Nil
  then show ?case by simp
next
  case (Cons a matches)
  from Cons.prems have "\<forall>h \<in> set (autolinkHitBody s excluded a hits). inBounds s h"
    by (auto simp: autolinkHitBody_def Let_def)
  with Cons.IH [of "autolinkHitBody s excluded a hits"] Cons.prems(1) show ?case by simp
qed

lemma matchAll_inBounds: "\<forall>m \<in> set (matchAll re s). inBounds s (rangeOf s m)"
  using rangeOf_matchAll [of _ re s] by (simp add: inBounds_def)

lemma keptHits_inBounds: "\<forall>h \<in> set (keptHits s). inBounds s h"
  unfolding keptHits_def collectHits_def Let_def set_sort
  by (intro fold_autolinkHitBody_inBounds fold_linkBody_inBounds matchAll_inBounds) simp

lemma length_slice: "b \<le> length s \<Longrightarrow> length (slice s a b) = b - a"
  by (simp add: slice_def)

lemma replaceLoop_length:
  assumes "nonOverlapping cursor hits" and "\<forall>h \<in> set hits. inBounds s h" and "cursor \<le> length s"
  shows "case replaceLoop s hits i (result, cursor) of
           (result', cursor') \<Rightarrow>
             cursor' \<le> length s \<and>
             length result' + (length s - cursor') + spanLengths hits
               = length result + (length s - cursor) + markerLengths i (length hits)"
  using assms
proof (induction hits arbitrary: i result cursor)
  case Nil
  then show ?case by (simp add: spanLengths_def)
next
  case (Cons h hits)
  from Cons.prems have b: "cursor \<le> r_start h" "r_start h \<le> r_end h" "r_end h \<le> length s"
    and no: "nonOverlapping (r_end h) hits" and ib: "\<forall>h \<in> set hits. inBounds s h"
    by (simp_all add: inBounds_def)
  let ?res = "result @ slice s cursor (r_start h) @ marker (i + 1)"
  from Cons.IH [OF no ib b(3), where i = "i + 1" and result = ?res]
  obtain result' cursor' where r: "replaceLoop s hits (i + 1) (?res, r_end h) = (result', cursor')"
    and c: "cursor' \<le> length s"
    and l: "length result' + (length s - cursor') + spanLengths hits
            = length ?res + (length s - r_end h) + markerLengths (i + 1) (length hits)"
    by (cases "replaceLoop s hits (i + 1) (?res, r_end h)") auto
  from b have ls: "length (slice s cursor (r_start h)) = r_start h - cursor"
    by (simp add: length_slice)
  from r c l ls b show ?case
    by (simp add: spanLengths_def)
qed

text \<open>
  Claim C2 says the length formula holds for every document. In \<open>[a][b](c)\<close> the
  reference pattern hits \<open>[a][b]\<close> and the inline pattern hits \<open>[b](c)\<close>; both are kept,
  the output is \<open>[1][2]\<close> of length 6, and the formula gives 9 - 12 + 6 = 3.
\<close>

theorem overlapping_hits_counterexample:
  "keptHits ''[a][b](c)'' = [\<lparr>r_start = 0, r_end = 6\<rparr>, \<lparr>r_start = 3, r_end = 9\<rparr>]
   \<and> replaceMarkdownLinksWithOrder ''[a][b](c)'' = ''[1][2]''
   \<and> int (length (replaceMarkdownLinksWithOrder ''[a][b](c)''))
       \<noteq> int (length ''[a][b](c)'') - int (spanLengths (keptHits ''[a][b](c)''))
         + int (markerLengths 0 (length (keptHits ''[a][b](c)'')))"
proof -
  have k: "keptHits ''[a][b](c)'' = [\<lparr>r_start = 0, r_end = 6\<rparr>, \<lparr>r_start = 3, r_end = 9\<rparr>]"
    by code_simp
  have r: "replaceMarkdownLinksWithOrder ''[a][b](c)'' = ''[1][2]''"
    by code_simp
  have m: "markerLengths 0 (length (keptHits ''[a][b](c)'')) = 6" unfolding k by code_simp
  have l: "spanLengths (keptHits ''[a][b](c)'') = 12" unfolding k by code_simp
  show ?thesis unfolding m l unfolding k r by simp
qed

text \<open>
  Claim C2, amended. For every document whose kept hits, in sorted order, do not overlap,
  the length of the rewriter's output is the length of the input minus the total length of
  the kept hit spans plus the total length of the inserted markers.
\<close>

theorem rewriter_length_without_overlap:
  assumes "nonOverlapping 0 (keptHits markdown)"
  shows "int (length (replaceMarkdownLinksWithOrder markdown))
       = int (length markdown) - int (spanLengths (keptHits markdown))
         + int (markerLengths 0 (length (keptHits markdown)))"
proof -
  obtain result cursor where r: "replaceLoop markdown (keptHits markdown) 0 ([], 0) = (result, cursor)"
    by (cases "replaceLoop markdown (keptHits markdown) 0 ([], 0)") auto
  from replaceLoop_length [OF assms keptHits_inBounds, where i = 0 and result = "[]"] r
  have c: "cursor \<le> length markdown"
    and l: "length result + (length markdown - cursor) + spanLengths (keptHits markdown)
            = length markdown + markerLengths 0 (length (keptHits markdown))"
    by auto
  have "length (replaceMarkdownLinksWithOrder markdown) = length result + (length markdown - cursor)"
    by (simp add: replaceMarkdownLinksWithOrder_def r sliceFrom_def)
  with l show ?thesis by linarith
qed

theorem rewriter_length_without_overlap_witness:
  "nonOverlapping 0 (keptHits ''see [a](b) and <x:y>'')
   \<and> keptHits ''see [a](b) and <x:y>'' = [\<lparr>r_start = 4, r_end = 10\<rparr>, \<lparr>r_start = 15, r_end = 20\<rparr>]
   \<and> replaceMarkdownLinksWithOrder ''see [a](b) and <x:y>'' = ''see [1] and [2]''
   \<and> int (length (replaceMarkdownLinksWithOrder ''see [a](b) and <x:y>'')) = int 20 - int 11 + int 6"
proof -
  have k: "keptHits ''see [a](b) and <x:y>'' = [\<lparr>r_start = 4, r_end = 10\<rparr>, \<lparr>r_start = 15, r_end = 20\<rparr>]"
    by code_simp
  have r: "replaceMarkdownLinksWithOrder ''see [a](b) and <x:y>'' = ''see [1] and [2]''"
    by code_simp
  have m: "markerLengths 0 (length (keptHits ''see [a](b) and <x:y>'')) = 6" unfolding k by code_simp
  have l: "spanLengths (keptHits ''see [a](b) and <x:y>'') = 11" unfolding k by code_simp
  have n: "nonOverlapping 0 (keptHits ''see [a](b) and <x:y>'')" unfolding k by simp
  from rewriter_length_without_overlap [OF n] have
    "int (length (replaceMarkdownLinksWithOrder ''see [a](b) and <x:y>'')) = int 20 - int 11 + int 6"
    unfolding m l by simp
  with n k r show ?thesis by simp
qed

section \<open>Exclusion spans\<close>

text \<open>The body of the loop over inline code spans.\<close>

definition codeStep :: "string \<Rightarrow> rmatch \<Rightarrow> Range list \<Rightarrow> Range list" where
  "codeStep s m excluded =
     (let r = rangeOf s m
      in if \<not> isInsideExcluded (r_start r) (r_end r) excluded then excluded @ [r] else excluded)"

lemma excludedRanges_alt:
  "excludedRanges s =
     fold (codeStep s) (matchAll inlineCodeRE s) (map (rangeOf s) (matchAll fencedRE s))
     @ map (rangeOf s) (matchAll defLineRE s)"
proof -
  have a: "fold (\<lambda>m excluded. excluded @ [rangeOf s m]) matches ex = ex @ map (rangeOf s) matches"
    for matches ex
    by (induction matches arbitrary: ex) simp_all
  show ?thesis
    unfolding excludedRanges_def Let_def a codeStep_def [abs_def] by simp
qed

lemma fold_codeStep_mono: "set ex \<subseteq> set (fold (codeStep s) matches ex)"
proof (induction matches arbitrary: ex)
  case Nil
  then show ?case by simp
next
  case (Cons a matches)
  have "set ex \<subseteq> set (codeStep s a ex)" by (auto simp: codeStep_def Let_def)
  with Cons.IH [of "codeStep s a ex"] show ?case by auto
qed

lemma fold_codeStep_keeps:
  assumes "sorted_wrt (\<lambda>a b. \<not> intersects (rangeOf s b) (rangeOf s a)) matches"
    and "\<forall>e \<in> set ex. e \<in> F \<or> (\<forall>m \<in> set matches. \<not> intersects (rangeOf s m) e)"
    and "m \<in> set matches" and "\<forall>f \<in> F. \<not> intersects (rangeOf s m) f"
  shows "rangeOf s m \<in> set (fold (codeStep s) matches ex)"
  using assms(1,2,3)
proof (induction matches arbitrary: ex)
  case Nil
  then show ?case by simp
next
  case (Cons a matches)
  show ?case
  proof (cases "m = a")
    case True
    from Cons.prems(2) assms(4) True have "\<forall>e \<in> set ex. \<not> intersects (rangeOf s m) e"
      by auto
    then have "\<not> isInsideExcluded (r_start (rangeOf s m)) (r_end (rangeOf s m)) ex"
      by (simp add: isInsideExcluded_iff clearOf_def)
    with True have "rangeOf s m \<in> set (codeStep s a ex)" by (simp add: codeStep_def Let_def)
    with fold_codeStep_mono [of "codeStep s a ex" s matches] show ?thesis by auto
  next
    case False
    with Cons.prems(3) have m: "m \<in> set matches" by simp
    from Cons.prems(1) have s1: "sorted_wrt (\<lambda>a b. \<not> intersects (rangeOf s b) (rangeOf s a)) matches"
      and s2: "\<forall>b \<in> set matches. \<not> intersects (rangeOf s b) (rangeOf s a)"
      by simp_all
    have "\<forall>e \<in> set (codeStep s a ex). e \<in> F \<or> (\<forall>m \<in> set matches. \<not> intersects (rangeOf s m) e)"
      using Cons.prems(2) s2 by (auto simp: codeStep_def Let_def)
    from Cons.IH [OF s1 this m] show ?thesis by simp
  qed
qed

lemma matchAll_disjoint:
  "sorted_wrt (\<lambda>a b. \<not> intersects (rangeOf s b) (rangeOf s a)) (matchAll re s)"
proof -
  have srt: "sorted_wrt (\<lambda>a b. m_index a < m_index b \<and> m_end a \<le> m_index b) (matchAll re s)"
    by (simp add: matchAll_def matchAllFrom_sorted)
  show ?thesis
  proof (rule sorted_wrt_mono_rel [OF _ srt])
    fix a b
    assume a: "a \<in> set (matchAll re s)" and b: "b \<in> set (matchAll re s)"
      and o: "m_index a < m_index b \<and> m_end a \<le> m_index b"
    from rangeOf_matchAll [OF a] rangeOf_matchAll [OF b] o
    show "\<not> intersects (rangeOf s b) (rangeOf s a)"
      by (simp add: intersects_def)
  qed
qed

lemma exclusions_complete:
  "(\<forall>m \<in> set (matchAll fencedRE s) \<union> set (matchAll defLineRE s). rangeOf s m \<in> set (excludedRanges s))
   \<and> (\<forall>m \<in> set (matchAll inlineCodeRE s).
         (\<forall>f \<in> set (matchAll fencedRE s). \<not> intersects (rangeOf s m) (rangeOf s f))
         \<longrightarrow> rangeOf s m \<in> set (excludedRanges s))"
proof -
  let ?F = "map (rangeOf s) (matchAll fencedRE s)"
  have 1: "rangeOf s m \<in> set (excludedRanges s)"
    if "m \<in> set (matchAll fencedRE s) \<union> set (matchAll defLineRE s)" for m
    using that fold_codeStep_mono [of ?F s "matchAll inlineCodeRE s"]
    unfolding excludedRanges_alt by auto
  have 2: "rangeOf s m \<in> set (excludedRanges s)"
    if m: "m \<in> set (matchAll inlineCodeRE s)"
      and f: "\<forall>f \<in> set (matchAll fencedRE s). \<not> intersects (rangeOf s m) (rangeOf s f)" for m
  proof -
    from f have f': "\<forall>f \<in> set ?F. \<not> intersects (rangeOf s m) f" by simp
    have "rangeOf s m \<in> set (fold (codeStep s) (matchAll inlineCodeRE s) ?F)"
      by (rule fold_codeStep_keeps [OF matchAll_disjoint _ m f']) simp
    then show ?thesis unfolding excludedRanges_alt by simp
  qed
  from 1 2 show ?thesis by blast
qed

lemma keptHits_clear:
  assumes "h \<in> set (keptHits s)" and "r \<in> set (excludedRanges s)"
  shows "\<not> intersects h r"
  using collectHits_clear [of s "excludedRanges s"] assms
  by (simp add: keptHits_def clearOf_def)

text \<open>
  A document of one line of inline code that holds a link and ends in three tildes, a line
  of text and a line of three tildes.
\<close>

definition codeSpanSample :: string where
  "codeSpanSample =
     [CHR 0x60] @ ''[a](b) ~~~'' @ [CHR 0x60, CHR 0x0A] @ ''code'' @ [CHR 0x0A] @ ''~~~''"

text \<open>
  Claim C6. For every document, every hit span that the rewriter keeps is disjoint from
  every exclusion span, and no replaced region overlaps a fenced code block, an inline code
  span or a definition line. The first half holds of the code (\<open>keptHits_clear\<close>), and the
  exclusion spans hold every fenced match, every definition line and every inline code
  match that meets no fenced match (\<open>exclusions_complete\<close>). The second half fails: the
  loop over inline code spans drops a span that merely intersects a fenced match, although
  its comment speaks of portions inside fenced blocks and the function's documentation
  says that inline code is skipped. In \<open>codeSpanSample\<close> the fence pattern matches from the
  tildes inside the code span to the last line, (8, 21); the inline code span (0, 12)
  intersects it and is not made an exclusion span; the link (1, 7) inside the code span is
  kept and replaced.
\<close>

theorem link_in_inline_code_replaced:
  "map (rangeOf codeSpanSample) (matchAll fencedRE codeSpanSample) = [\<lparr>r_start = 8, r_end = 21\<rparr>]
   \<and> map (rangeOf codeSpanSample) (matchAll inlineCodeRE codeSpanSample) = [\<lparr>r_start = 0, r_end = 12\<rparr>]
   \<and> excludedRanges codeSpanSample = [\<lparr>r_start = 8, r_end = 21\<rparr>]
   \<and> keptHits codeSpanSample = [\<lparr>r_start = 1, r_end = 7\<rparr>]
   \<and> intersects \<lparr>r_start = 1, r_end = 7\<rparr> \<lparr>r_start = 0, r_end = 12\<rparr>
   \<and> replaceMarkdownLinksWithOrder codeSpanSample
       = [CHR 0x60] @ ''[1] ~~~'' @ [CHR 0x60, CHR 0x0A] @ ''code'' @ [CHR 0x0A] @ ''~~~''"
proof -
  have "map (rangeOf codeSpanSample) (matchAll fencedRE codeSpanSample) = [\<lparr>r_start = 8, r_end = 21\<rparr>]"
    by code_simp
  moreover have "map (rangeOf codeSpanSample) (matchAll inlineCodeRE codeSpanSample)
      = [\<lparr>r_start = 0, r_end = 12\<rparr>]"
    by code_simp
  moreover have "excludedRanges codeSpanSample = [\<lparr>r_start = 8, r_end = 21\<rparr>]"
    by code_simp
  moreover have "keptHits codeSpanSample = [\<lparr>r_start = 1, r_end = 7\<rparr>]"
    by code_simp
  moreover have "replaceMarkdownLinksWithOrder codeSpanSample
       = [CHR 0x60] @ ''[1] ~~~'' @ [CHR 0x60, CHR 0x0A] @ ''code'' @ [CHR 0x0A] @ ''~~~''"
    by code_simp
  ultimately show ?thesis by (simp add: intersects_def)
qed

section \<open>Totality\<close>

lemma no_bracket_no_inline: "CHR ''['' \<notin> set s \<Longrightarrow> matchAll inlineLinkRe s = []"
  by (rule matchAll_empty_count [where c = "CHR ''[''"]) (simp add: count_list_absent minCount_inlineLinkRe)

lemma no_bracket_no_reference: "count_list s CHR ''['' < 2 \<Longrightarrow> matchAll refLinkRe s = []"
  by (rule matchAll_empty_count [where c = "CHR ''[''"]) (simp add: minCount_refLinkRe)

lemma no_angle_no_autolink: "CHR ''<'' \<notin> set s \<Longrightarrow> matchAll autolinkRe s = []"
  by (rule matchAll_empty_count [where c = "CHR ''<''"]) (simp add: count_list_absent minCount_autolinkRe)

lemma no_hits_unchanged: "keptHits s = [] \<Longrightarrow> replaceMarkdownLinksWithOrder s = s"
  by (simp add: replaceMarkdownLinksWithOrder_def sliceFrom_def)

text \<open>
  Claim C8. Both functions are total. The extractor returns a list for every document: its
  \<open>exec\<close> loops end and no \<open>trim\<close> is called on an undefined group. It returns the empty
  list on the empty document, on every document where none of the three link patterns
  matches, and so on every document without \<open>[\<close> and \<open><\<close>. The rewriter is a total
  function (\<open>matchAll\<close> steps over empty matches), and a document with no kept hit is
  returned unchanged.
\<close>

theorem both_functions_total:
  "(\<exists>results. extractMarkdownLinks markdown = Some (Inr results))
   \<and> extractMarkdownLinks [] = Some (Inr [])
   \<and> (matchAll inlineLinkRe markdown = [] \<and> matchAll autolinkRe markdown = []
        \<and> matchAll refLinkRe markdown = [] \<longrightarrow> extractMarkdownLinks markdown = Some (Inr []))
   \<and> (CHR ''['' \<notin> set markdown \<and> CHR ''<'' \<notin> set markdown \<longrightarrow>
        extractMarkdownLinks markdown = Some (Inr []))
   \<and> (keptHits markdown = [] \<longrightarrow> replaceMarkdownLinksWithOrder markdown = markdown)"
proof -
  have e: "extractMarkdownLinks [] = Some (Inr [])" by code_simp
  have n: "extractMarkdownLinks markdown = Some (Inr [])"
    if "matchAll inlineLinkRe markdown = []" "matchAll autolinkRe markdown = []"
       "matchAll refLinkRe markdown = []"
    using that
    by (simp add: extractMarkdownLinks_passes inlineOccurrences_def autolinkOccurrences_def
          referenceOccurrences_def)
  have c: "extractMarkdownLinks markdown = Some (Inr [])"
    if "CHR ''['' \<notin> set markdown" "CHR ''<'' \<notin> set markdown"
    using that
    by (intro n no_bracket_no_inline no_bracket_no_reference no_angle_no_autolink)
       (simp_all add: count_list_absent)
  from e n c show ?thesis
    by (simp add: extractMarkdownLinks_passes no_hits_unchanged)
qed

theorem both_functions_total_witness:
  "matchAll inlineLinkRe ''[broken]( and text'' = []
   \<and> matchAll autolinkRe ''[broken]( and text'' = []
   \<and> matchAll refLinkRe ''[broken]( and text'' = []
   \<and> extractMarkdownLinks ''[broken]( and text'' = Some (Inr [])
   \<and> CHR ''['' \<notin> set ''plain text'' \<and> CHR ''<'' \<notin> set ''plain text''
   \<and> extractMarkdownLinks ''plain text'' = Some (Inr [])
   \<and> keptHits ''plain text'' = []
   \<and> replaceMarkdownLinksWithOrder ''plain text'' = ''plain text''"
proof -
  have a: "matchAll inlineLinkRe ''[broken]( and text'' = []" by code_simp
  have b: "matchAll autolinkRe ''[broken]( and text'' = []" by code_simp
  have c: "matchAll refLinkRe ''[broken]( and text'' = []" by code_simp
  have k: "keptHits ''plain text'' = []" by code_simp
  from both_functions_total [of "''[broken]( and text''"] a b c
  have 1: "extractMarkdownLinks ''[broken]( and text'' = Some (Inr [])" by simp
  from both_functions_total [of "''plain text''"] k
  have 2: "extractMarkdownLinks ''plain text'' = Some (Inr [])"
    and 3: "replaceMarkdownLinksWithOrder ''plain text'' = ''plain text''" by simp_all
  from a b c k 1 2 3 show ?thesis by simp
qed

section \<open>Email autolinks\<close>

lemma in_dropWhile: "c \<in> set xs \<Longrightarrow> \<not> P c \<Longrightarrow> c \<in> set (dropWhile P xs)"
  by (induction xs) auto

lemma in_trim: "c \<in> set g \<Longrightarrow> \<not> isWhiteSpace c \<Longrightarrow> c \<in> set (trim g)"
  unfolding trim_def set_rev by (intro in_dropWhile) (simp_all add: in_dropWhile)

text \<open>The body of the extractor's autolink pattern, its group 1.\<close>

definition autolinkBodyRe :: regex where
  "autolinkBodyRe = cats [letter, star schemeChar, Lit CHR '':'', plus (notSpaceNor ''>'')]"

lemma autolinkRe_body: "autolinkRe = cats [Lit CHR ''<'', Grp 1 autolinkBodyRe, Lit CHR ''>'']"
  by (simp add: autolinkRe_def autolinkBodyRe_def)

lemma autolink_group_colon:
  assumes "regexExec autolinkRe s j = Some m"
  shows "\<exists>g. m_groups m 1 = Some g \<and> CHR '':'' \<in> set g"
proof -
  let ?x = "\<lparr>endIndex = m_index m, captures = \<lambda>_. None\<rparr>"
  from regexExec_SomeD [OF assms] obtain y ys where le: "m_index m \<le> length s"
    and y: "ms autolinkRe s ?x = y # ys" and g: "m_groups m = captures y"
    by blast
  from y have "y \<in> set (ms autolinkRe s ?x)" by simp
  then obtain x1 x2 x3 where x1: "x1 \<in> set (ms (Lit CHR ''<'') s ?x)"
    and x2: "x2 \<in> set (ms (Grp 1 autolinkBodyRe) s x1)"
    and x3: "x3 \<in> set (ms (Lit CHR ''>'') s x2)"
    and y3: "y \<in> set (ms Empty s x3)"
    unfolding autolinkRe_body cats_def foldr.simps o_apply id_apply in_ms_Cat by blast
  from ms_bounds [OF x1] le have b1: "endIndex x1 \<le> length s" by simp
  from in_ms_GrpD [OF x2] obtain z where z: "z \<in> set (ms autolinkBodyRe s x1)"
    and c2: "captures x2 1 = Some (slice s (endIndex x1) (endIndex z))"
    by blast
  have "minCount autolinkBodyRe CHR '':'' = 1"
    by (simp add: autolinkBodyRe_def cats_def plus_def star_def letter_def schemeChar_def
          notSpaceNor_def)
  with ms_minCount [OF z b1, of "CHR '':''"]
  have "count_list (slice s (endIndex x1) (endIndex z)) CHR '':'' \<noteq> 0" by simp
  then have colon: "CHR '':'' \<in> set (slice s (endIndex x1) (endIndex z))"
    unfolding count_list_0_iff by simp
  from in_ms_LitD [OF x3] have "captures x3 = captures x2" by simp
  moreover from y3 have "y = x3" by simp
  ultimately show ?thesis using c2 colon g by simp
qed

lemma autolinkOccurrences_colon:
  assumes "l \<in> set (autolinkOccurrences s)"
  shows "CHR '':'' \<in> set (url l)"
proof -
  from assms obtain m where m: "m \<in> set (matchAll autolinkRe s)" and l: "l \<in> set (autolinkOcc m)"
    by (auto simp: autolinkOccurrences_def)
  from matchAll_exec [OF m] obtain j where "regexExec autolinkRe s j = Some m" ..
  from autolink_group_colon [OF this] obtain g where g: "m_groups m 1 = Some g" "CHR '':'' \<in> set g"
    by blast
  have "\<not> isWhiteSpace CHR '':''" by (simp add: isWhiteSpace_def)
  from in_trim [OF g(2) this] l g(1) show ?thesis
    by (auto simp: autolinkOcc_def groupOrEmpty_def Let_def split: if_splits)
qed

text \<open>
  Claim C10. The rewriter accepts an email autolink as a hit, the extractor's autolink
  pattern needs a scheme and its colon: every pair of the autolink pass has a colon in its
  URL. So for \<open><user@host.tld>\<close> the rewriter inserts one marker and the extractor
  returns no pair, and in \<open><a@b.c> [x](y)\<close> the first pair of the extractor is the link
  with marker \<open>[2]\<close>.
\<close>

theorem email_autolinks_desynchronize:
  "extractMarkdownLinks ''<user@host.tld>'' = Some (Inr [])
   \<and> keptHits ''<user@host.tld>'' = [\<lparr>r_start = 0, r_end = 15\<rparr>]
   \<and> replaceMarkdownLinksWithOrder ''<user@host.tld>'' = ''[1]''
   \<and> extractMarkdownLinks ''<a@b.c> [x](y)'' = Some (Inr [\<lparr>title = ''x'', url = ''y''\<rparr>])
   \<and> replaceMarkdownLinksWithOrder ''<a@b.c> [x](y)'' = ''[1] [2]''
   \<and> (\<exists>markdown results. extractMarkdownLinks markdown = Some (Inr results)
         \<and> length results < length (keptHits markdown))
   \<and> (\<forall>l \<in> set (autolinkOccurrences markdown). CHR '':'' \<in> set (url l))"
proof -
  have e: "extractMarkdownLinks ''<user@host.tld>'' = Some (Inr [])" by code_simp
  have k: "keptHits ''<user@host.tld>'' = [\<lparr>r_start = 0, r_end = 15\<rparr>]" by code_simp
  have r: "replaceMarkdownLinksWithOrder ''<user@host.tld>'' = ''[1]''" by code_simp
  have e2: "extractMarkdownLinks ''<a@b.c> [x](y)'' = Some (Inr [\<lparr>title = ''x'', url = ''y''\<rparr>])"
    by code_simp
  have r2: "replaceMarkdownLinksWithOrder ''<a@b.c> [x](y)'' = ''[1] [2]''" by code_simp
  from e k have "\<exists>markdown results. extractMarkdownLinks markdown = Some (Inr results)
         \<and> length results < length (keptHits markdown)"
    by (intro exI [of _ "''<user@host.tld>''"] exI [of _ "[]"]) simp
  with e k r e2 r2 show ?thesis
    by (simp add: autolinkOccurrences_colon)
qed

theorem email_autolinks_desynchronize_witness:
  "autolinkOccurrences ''<x:y> <a@b.c>'' = [\<lparr>title = [], url = ''x:y''\<rparr>]
   \<and> CHR '':'' \<in> set (url \<lparr>title = [], url = ''x:y''\<rparr>)
   \<and> keptHits ''<x:y> <a@b.c>'' = [\<lparr>r_start = 0, r_end = 5\<rparr>, \<lparr>r_start = 6, r_end = 13\<rparr>]"
proof -
  have a: "autolinkOccurrences ''<x:y> <a@b.c>'' = [\<lparr>title = [], url = ''x:y''\<rparr>]" by code_simp
  have k: "keptHits ''<x:y> <a@b.c>'' = [\<lparr>r_start = 0, r_end = 5\<rparr>, \<lparr>r_start = 6, r_end = 13\<rparr>]"
    by code_simp
  from email_autolinks_desynchronize [of "''<x:y> <a@b.c>''"] show ?thesis unfolding a k by simp
qed

section \<open>A second run of the rewriter\<close>









lemma minCount_refLinkRE: "minCount refLinkRE CHR ''['' = 2"
  by (simp add: refLinkRE_def cats_def plus_def star_def opt_def notOneOf_def)

lemma minCount_inlineLinkRE: "minCount inlineLinkRE CHR ''('' = 1"
  by (simp add: inlineLinkRE_def cats_def plus_def star_def opt_def notOneOf_def)




















text \<open>
  The other ways in which a second run changes the output: a hit directly followed by
  \<open>(\<close>, text that ends with \<open>]\<close> directly before a hit, and an autolink in an inline code
  span whose backticks pair up differently once a hit that held a line break is replaced.
\<close>

definition repairedSpanSample :: string where
  "repairedSpanSample =
     ''x '' @ [CHR 0x60] @ '' [a'' @ [CHR 0x0A] @ ''b](u) '' @ [CHR 0x60] @ '' <p:q> '' @ [CHR 0x60]"

lemma second_run_other_changes:
  "replaceMarkdownLinksWithOrder ''[a](b)(c)'' = ''[1](c)''
   \<and> replaceMarkdownLinksWithOrder ''[1](c)'' = ''[1]''
   \<and> replaceMarkdownLinksWithOrder ''[x]<a:b>'' = ''[x][1]''
   \<and> replaceMarkdownLinksWithOrder ''[x][1]'' = ''[1]''
   \<and> replaceMarkdownLinksWithOrder repairedSpanSample
       = ''x '' @ [CHR 0x60] @ '' [1] '' @ [CHR 0x60] @ '' <p:q> '' @ [CHR 0x60]
   \<and> replaceMarkdownLinksWithOrder (''x '' @ [CHR 0x60] @ '' [1] '' @ [CHR 0x60] @ '' <p:q> '' @ [CHR 0x60])
       = ''x '' @ [CHR 0x60] @ '' [1] '' @ [CHR 0x60] @ '' [1] '' @ [CHR 0x60]"
proof -
  have "replaceMarkdownLinksWithOrder ''[a](b)(c)'' = ''[1](c)''" by code_simp
  moreover have "replaceMarkdownLinksWithOrder ''[1](c)'' = ''[1]''" by code_simp
  moreover have "replaceMarkdownLinksWithOrder ''[x]<a:b>'' = ''[x][1]''" by code_simp
  moreover have "replaceMarkdownLinksWithOrder ''[x][1]'' = ''[1]''" by code_simp
  moreover have "replaceMarkdownLinksWithOrder repairedSpanSample
       = ''x '' @ [CHR 0x60] @ '' [1] '' @ [CHR 0x60] @ '' <p:q> '' @ [CHR 0x60]" by code_simp
  moreover have "replaceMarkdownLinksWithOrder
         (''x '' @ [CHR 0x60] @ '' [1] '' @ [CHR 0x60] @ '' <p:q> '' @ [CHR 0x60])
       = ''x '' @ [CHR 0x60] @ '' [1] '' @ [CHR 0x60] @ '' [1] '' @ [CHR 0x60]" by code_simp
  ultimately show ?thesis by simp
qed



section \<open>Images\<close>

text \<open>
  Claim C7. For every image construct, detected by its leading \<open>!\<close>, the extractor emits
  no occurrence and the rewriter leaves it as it is; the documentation of both functions
  says that images are ignored. The inline and reference loops of both functions skip a
  match that begins with \<open>!\<close>, and the image of the specification's example is skipped.
  The autolink loops have no such check, and the link alternative of the inline pattern
  matches inside the brackets of a link around an image. In \<open>![alt](<http://x>)\<close> the target
  in angle brackets is matched by both autolink patterns: the extractor returns the pair
  for \<open>http://x\<close> and the rewriter returns \<open>![alt]([1])\<close>. In \<open>[![alt](img.png)](http://t)\<close>
  the extractor returns the image's target \<open>img.png\<close> under the title \<open>![alt\<close>, and the
  rewriter replaces the text up to the end of the image by \<open>[1]\<close>.
\<close>

theorem image_target_extracted_and_replaced:
  "extractMarkdownLinks ''![alt](https://a.test/img.png)'' = Some (Inr [])
   \<and> replaceMarkdownLinksWithOrder ''![alt](https://a.test/img.png)'' = ''![alt](https://a.test/img.png)''
   \<and> extractMarkdownLinks ''![alt](<http://x>)'' = Some (Inr [\<lparr>title = [], url = ''http://x''\<rparr>])
   \<and> replaceMarkdownLinksWithOrder ''![alt](<http://x>)'' = ''![alt]([1])''
   \<and> extractMarkdownLinks ''[![alt](img.png)](http://t)''
       = Some (Inr [\<lparr>title = ''![alt'', url = ''img.png''\<rparr>])
   \<and> replaceMarkdownLinksWithOrder ''[![alt](img.png)](http://t)'' = ''[1]](http://t)''"
proof -
  have "extractMarkdownLinks ''![alt](https://a.test/img.png)'' = Some (Inr [])"
    by code_simp
  moreover have "replaceMarkdownLinksWithOrder ''![alt](https://a.test/img.png)''
      = ''![alt](https://a.test/img.png)''"
    by code_simp
  moreover have "extractMarkdownLinks ''![alt](<http://x>)''
      = Some (Inr [\<lparr>title = [], url = ''http://x''\<rparr>])"
    by code_simp
  moreover have "replaceMarkdownLinksWithOrder ''![alt](<http://x>)'' = ''![alt]([1])''"
    by code_simp
  moreover have "extractMarkdownLinks ''[![alt](img.png)](http://t)''
       = Some (Inr [\<lparr>title = ''![alt'', url = ''img.png''\<rparr>])"
    by code_simp
  moreover have "replaceMarkdownLinksWithOrder ''[![alt](img.png)](http://t)'' = ''[1]](http://t)''"
    by code_simp
  ultimately show ?thesis by simp
qed

section \<open>Unterminated fences\<close>

text \<open>
  An opening fence without a closing fence, in the words of the claim: at index \<open>i\<close> the
  document has three backticks or three tildes, and no later line begins with the same
  three characters, that is, no line break at or after the end of the fence is directly
  followed by them.
\<close>

definition backticks :: string where
  "backticks = [CHR 0x60, CHR 0x60, CHR 0x60]"

definition closingFenceAt :: "string \<Rightarrow> string \<Rightarrow> nat \<Rightarrow> bool" where
  "closingFenceAt s f j = (j < length s \<and> s ! j = CHR 0x0A \<and> slice s (j + 1) (j + 4) = f)"

definition unterminatedFence :: "string \<Rightarrow> nat \<Rightarrow> bool" where
  "unterminatedFence s i =
     (let f = slice s i (i + 3)
      in (f = backticks \<or> f = ''~~~'') \<and> \<not> list_ex (closingFenceAt s f) [i + 3..<length s])"

text \<open>
  The link-like occurrences of a document are what the three hit loops of the rewriter
  collect when nothing is excluded: the matches of the inline and reference patterns that
  do not begin with \<open>!\<close>, and the autolink matches that pass the URL or the email test.
\<close>

definition linkOccurrences :: "string \<Rightarrow> Hit list" where
  "linkOccurrences s = collectHits s []"

text \<open>
  Every match of \<open>fencedRE\<close> has a closing fence: the pattern ends with a line break and
  the back-reference to the opening fence, after the line break that ends the opening
  line.
\<close>

lemma fenced_match_closing:
  assumes "y \<in> set (ms fencedRE s x)" and "endIndex x \<le> length s"
  shows "\<exists>j. endIndex x + 4 \<le> j \<and> closingFenceAt s (slice s (endIndex x) (endIndex x + 3)) j"
proof -
  let ?A = "Alt (cats [Lit CHR 0x60, Lit CHR 0x60, Lit CHR 0x60])
                (cats [Lit CHR ''~'', Lit CHR ''~'', Lit CHR ''~''])"
  from assms(1) obtain x1 x2 x3 x4 x5 x6 where
    x1: "x1 \<in> set (ms (Grp 1 ?A) s x)"
    and x2: "x2 \<in> set (ms (star (notOneOf [CHR 0x0A])) s x1)"
    and x3: "x3 \<in> set (ms (Lit CHR 0x0A) s x2)"
    and x4: "x4 \<in> set (ms (lazyStar anyChar) s x3)"
    and x5: "x5 \<in> set (ms (Lit CHR 0x0A) s x4)"
    and x6: "x6 \<in> set (ms (BackRef 1) s x5)"
    unfolding fencedRE_def cats_def [of "[Grp _ _, _, _, _, _, _]"] foldr.simps o_apply id_apply
      in_ms_Cat
    by (auto simp del: ms.simps)
  from in_ms_GrpD [OF x1] obtain z where z: "z \<in> set (ms ?A s x)"
    and c1: "captures x1 1 = Some (slice s (endIndex x) (endIndex z))"
    and e1: "endIndex x1 = endIndex z"
    by blast
  from z consider "z \<in> set (ms (cats [Lit CHR 0x60, Lit CHR 0x60, Lit CHR 0x60]) s x)"
    | "z \<in> set (ms (cats [Lit CHR ''~'', Lit CHR ''~'', Lit CHR ''~'']) s x)"
    by auto
  then have ez: "endIndex z = endIndex x + 3"
  proof cases
    case 1
    from three_literals [OF 1] show ?thesis by simp
  next
    case 2
    from three_literals [OF 2] show ?thesis by simp
  qed
  define t where "t = slice s (endIndex x) (endIndex x + 3)"
  from ms_bounds [OF z assms(2)] ez have "endIndex x + 3 \<le> length s" by simp
  then have lt: "length t = 3" by (simp add: t_def slice_def)
  have "captures x2 1 = captures x1 1"
    by (rule ms_captures_same [OF _ x2]) (simp add: star_def notOneOf_def)
  moreover have "captures x3 1 = captures x2 1"
    by (rule ms_captures_same [OF _ x3]) simp
  moreover have "captures x4 1 = captures x3 1"
    by (rule ms_captures_same [OF _ x4]) (simp add: lazyStar_def anyChar_def)
  moreover have "captures x5 1 = captures x4 1"
    by (rule ms_captures_same [OF _ x5]) simp
  ultimately have c5: "captures x5 1 = Some t"
    using c1 ez by (simp add: t_def)
  from ms_BackRefD [OF x6] c5 lt have b: "slice s (endIndex x5) (endIndex x5 + 3) = t"
    by simp
  from ms_bounds [OF x1 assms(2)] have l1: "endIndex x1 \<le> length s" by simp
  from ms_bounds [OF x2 l1] have l2: "endIndex x1 \<le> endIndex x2" "endIndex x2 \<le> length s" by simp_all
  from in_ms_LitD [OF x3] have e3: "endIndex x3 = endIndex x2 + 1" "endIndex x2 < length s" by simp_all
  then have l3: "endIndex x3 \<le> length s" by simp
  from ms_bounds [OF x4 l3] have l4: "endIndex x3 \<le> endIndex x4" by simp
  from in_ms_LitD [OF x5] have q: "endIndex x4 < length s" "s ! endIndex x4 = CHR 0x0A"
    "endIndex x5 = endIndex x4 + 1" by simp_all
  from b q(3) have "slice s (endIndex x4 + 1) (endIndex x4 + 4) = t" by (simp add: add.commute)
  with q(1,2) have "closingFenceAt s t (endIndex x4)" by (simp add: closingFenceAt_def)
  moreover from e1 ez l2 e3 l4 have "endIndex x + 4 \<le> endIndex x4" by simp
  ultimately show ?thesis unfolding t_def by blast
qed

lemma matchAll_head:
  assumes "m \<in> set (matchAll re s)"
  shows "m_index m \<le> length s \<and>
     (\<exists>y ys. ms re s \<lparr>endIndex = m_index m, captures = \<lambda>_. None\<rparr> = y # ys \<and> m_end m = endIndex y)"
proof -
  from matchAll_exec [OF assms] obtain j where "regexExec re s j = Some m" ..
  from regexExec_SomeD [OF this] show ?thesis by blast
qed

text \<open>No match of \<open>fencedRE\<close> begins at an unterminated fence, or at the same three
  characters after it.\<close>

lemma unterminated_no_fenced_match:
  assumes u: "unterminatedFence s i" and m: "m \<in> set (matchAll fencedRE s)" and le: "i \<le> m_index m"
  shows "slice s (m_index m) (m_index m + 3) \<noteq> slice s i (i + 3)"
proof
  assume eq: "slice s (m_index m) (m_index m + 3) = slice s i (i + 3)"
  from matchAll_head [OF m] obtain y ys where
    y: "ms fencedRE s \<lparr>endIndex = m_index m, captures = \<lambda>_. None\<rparr> = y # ys"
    and l: "m_index m \<le> length s"
    by blast
  let ?x = "\<lparr>endIndex = m_index m, captures = \<lambda>_. None\<rparr>"
  from y have "y \<in> set (ms fencedRE s ?x)" by simp
  from fenced_match_closing [OF this] l eq obtain j where
    j: "m_index m + 4 \<le> j" "closingFenceAt s (slice s i (i + 3)) j"
    by auto
  from j(2) have "j < length s" by (simp add: closingFenceAt_def)
  with j(1) le have "j \<in> set [i + 3..<length s]" by simp
  with j(2) have "list_ex (closingFenceAt s (slice s i (i + 3))) [i + 3..<length s]"
    unfolding list_ex_iff by blast
  with u show False by (simp add: unterminatedFence_def Let_def)
qed

text \<open>The hit loops filter the link-like occurrences by the exclusion spans.\<close>

definition linkHit :: "string \<Rightarrow> rmatch \<Rightarrow> Hit list" where
  "linkHit s m = (if startsWith (m_0 s m) ''!'' then [] else [rangeOf s m])"

definition autolinkHit :: "string \<Rightarrow> rmatch \<Rightarrow> Hit list" where
  "autolinkHit s m =
     (let inner = (case m_groups m 1 of None \<Rightarrow> ''undefined'' | Some t \<Rightarrow> t)
      in if regexTest looksLikeUrlRE inner \<or> regexTest looksLikeEmailRE inner then [rangeOf s m] else [])"

lemma fold_linkBody_filter:
  "fold (linkBody s ex) matches hits = hits @ filter (clearOf ex) (concat (map (linkHit s) matches))"
proof (induction matches arbitrary: hits)
  case Nil
  then show ?case by simp
next
  case (Cons a matches)
  have "linkBody s ex a hits = hits @ filter (clearOf ex) (linkHit s a)"
    by (simp add: linkBody_def linkHit_def Let_def isInsideExcluded_iff)
  with Cons.IH [of "linkBody s ex a hits"] show ?case by simp
qed

lemma fold_autolinkHitBody_filter:
  "fold (autolinkHitBody s ex) matches hits = hits @ filter (clearOf ex) (concat (map (autolinkHit s) matches))"
proof (induction matches arbitrary: hits)
  case Nil
  then show ?case by simp
next
  case (Cons a matches)
  have "autolinkHitBody s ex a hits = hits @ filter (clearOf ex) (autolinkHit s a)"
    by (simp add: autolinkHitBody_def autolinkHit_def Let_def isInsideExcluded_iff)
  with Cons.IH [of "autolinkHitBody s ex a hits"] show ?case by simp
qed

lemma collectHits_filter: "collectHits s ex = filter (clearOf ex) (linkOccurrences s)"
proof -
  have t: "filter (clearOf []) xs = xs" for xs by (simp add: clearOf_def)
  show ?thesis
    unfolding linkOccurrences_def collectHits_def Let_def fold_linkBody_filter fold_autolinkHitBody_filter t
    by simp
qed

lemma fold_codeStep_sources:
  "set (fold (codeStep s) matches ex) \<subseteq> set ex \<union> rangeOf s ` set matches"
proof (induction matches arbitrary: ex)
  case Nil
  then show ?case by simp
next
  case (Cons a matches)
  have "set (codeStep s a ex) \<subseteq> set ex \<union> {rangeOf s a}" by (auto simp: codeStep_def Let_def)
  with Cons.IH [of "codeStep s a ex"] show ?case by auto
qed

lemma excludedRanges_sources:
  "set (excludedRanges s) \<subseteq>
     rangeOf s ` (set (matchAll fencedRE s) \<union> set (matchAll inlineCodeRE s) \<union> set (matchAll defLineRE s))"
  unfolding excludedRanges_alt
  using fold_codeStep_sources [of s "matchAll inlineCodeRE s" "map (rangeOf s) (matchAll fencedRE s)"]
  by auto

lemma occurrence_kept:
  assumes "h \<in> set (linkOccurrences s)"
    and "\<forall>c \<in> set (matchAll fencedRE s) \<union> set (matchAll inlineCodeRE s) \<union> set (matchAll defLineRE s).
           \<not> intersects h (rangeOf s c)"
  shows "h \<in> set (keptHits s)"
proof -
  from assms(2) excludedRanges_sources [of s] have "clearOf (excludedRanges s) h"
    unfolding clearOf_def by blast
  with assms(1) show ?thesis by (simp add: keptHits_def collectHits_filter)
qed

text \<open>
  The exclusion spans that begin at an unterminated fence: none from \<open>fencedRE\<close>, none
  from \<open>defLineRE\<close>, whose matches begin with white space or \<open>[\<close>, and from \<open>inlineCodeRE\<close>
  only the empty code span that the first two backticks of the fence make.
\<close>

lemma in_ms_ClsD:
  assumes "y \<in> set (ms (Cls P) s x)"
  shows "endIndex x < length s \<and> P (s ! endIndex x) \<and> y = x\<lparr>endIndex := endIndex x + 1\<rparr>"
proof (cases "endIndex x < length s \<and> P (s ! endIndex x)")
  case True
  have eq: "ms (Cls P) s x = [x\<lparr>endIndex := endIndex x + 1\<rparr>]"
    unfolding ms.simps using True by (rule if_P)
  from assms have "y \<in> set [x\<lparr>endIndex := endIndex x + 1\<rparr>]" unfolding eq .
  then have "y = x\<lparr>endIndex := endIndex x + 1\<rparr>" by simp
  with True show ?thesis by blast
next
  case False
  have eq: "ms (Cls P) s x = []"
    unfolding ms.simps using False by (rule if_not_P)
  from assms have "y \<in> set []" unfolding eq .
  then show ?thesis by simp
qed

lemma in_ms_Rep_ClsD:
  assumes "y \<in> set (ms (Rep 0 mx g (Cls P)) s x)"
  shows "y = x \<or> (endIndex x < length s \<and> P (s ! endIndex x))"
proof -
  from assms have "y \<in> set (rep (\<lambda>y. ms (Cls P) s y) (length s) 0 mx g x)"
    unfolding ms.simps .
  from rep_unfold [OF this] consider "y = x" | z where "z \<in> set (ms (Cls P) s x)"
    by blast
  then show ?thesis
  proof cases
    case 1
    then show ?thesis by blast
  next
    case 2
    from in_ms_ClsD [OF 2] show ?thesis by blast
  qed
qed

lemma in_ms_LineStartD:
  assumes "y \<in> set (ms LineStart s x)"
  shows "y = x"
proof (cases "endIndex x = 0 \<or> isLineTerminator (s ! (endIndex x - 1))")
  case True
  have eq: "ms LineStart s x = [x]"
    unfolding ms.simps using True by (rule if_P)
  from assms show ?thesis unfolding eq by simp
next
  case False
  have eq: "ms LineStart s x = []"
    unfolding ms.simps using False by (rule if_not_P)
  from assms show ?thesis unfolding eq by simp
qed

lemma open_fence_chars:
  assumes "unterminatedFence s i"
  shows "i + 3 \<le> length s"
    and "s ! i = CHR 0x60 \<and> s ! (i + 1) = CHR 0x60 \<or> s ! i = CHR ''~''"
proof -
  from assms have f: "slice s i (i + 3) = backticks \<or> slice s i (i + 3) = ''~~~''"
    by (simp add: unterminatedFence_def Let_def)
  then have "length (slice s i (i + 3)) = 3" by (auto simp: backticks_def)
  then show l: "i + 3 \<le> length s" by (simp add: slice_def)
  then have "slice s i (i + 3) = [s ! i, s ! (i + 1), s ! (i + 2)]"
    by (simp add: slice_def Cons_nth_drop_Suc [symmetric] numeral_3_eq_3 take_Suc_conv_app_nth)
  with f show "s ! i = CHR 0x60 \<and> s ! (i + 1) = CHR 0x60 \<or> s ! i = CHR ''~''"
    by (auto simp: backticks_def)
qed

lemma defLine_first_char:
  assumes "y \<in> set (ms defLineRE s x)"
  shows "isWhiteSpace (s ! endIndex x) \<or> s ! endIndex x = CHR ''[''"
proof -
  from assms obtain z1 z2 z3 where z1: "z1 \<in> set (ms LineStart s x)"
    and z2: "z2 \<in> set (ms (Rep 0 (Some 3) True space) s z1)"
    and z3: "z3 \<in> set (ms (Lit CHR ''['') s z2)"
    unfolding defLineRE_def cats_def foldr.simps o_apply id_apply in_ms_Cat by blast
  from in_ms_LineStartD [OF z1] have e: "z1 = x" .
  from in_ms_Rep_ClsD [OF z2 [unfolded space_def]] e
  consider "z2 = x" | "isWhiteSpace (s ! endIndex x)" by blast
  then show ?thesis
  proof cases
    case 1
    with in_ms_LitD [OF z3] show ?thesis by blast
  next
    case 2
    then show ?thesis by blast
  qed
qed

lemma inlineCode_at_backticks:
  assumes "y \<in> set (ms inlineCodeRE s x)"
  shows "s ! endIndex x = CHR 0x60 \<and> (s ! (endIndex x + 1) = CHR 0x60 \<longrightarrow> endIndex y = endIndex x + 2)"
proof -
  from assms obtain z1 z2 z3 where z1: "z1 \<in> set (ms (Lit CHR 0x60) s x)"
    and z2: "z2 \<in> set (ms (star (notOneOf [CHR 0x60, CHR 0x0A])) s z1)"
    and z3: "z3 \<in> set (ms (Lit CHR 0x60) s z2)"
    and y: "y \<in> set (ms Empty s z3)"
    unfolding inlineCodeRE_def cats_def foldr.simps o_apply id_apply in_ms_Cat by blast
  from in_ms_LitD [OF z1] have a: "s ! endIndex x = CHR 0x60" "endIndex z1 = endIndex x + 1"
    by simp_all
  from y have yz: "y = z3" by simp
  have "endIndex y = endIndex x + 2" if b: "s ! (endIndex x + 1) = CHR 0x60"
  proof -
    from in_ms_Rep_ClsD [OF z2 [unfolded star_def notOneOf_def]] a(2) b have "z2 = z1"
      by auto
    with in_ms_LitD [OF z3] a(2) yz show ?thesis by simp
  qed
  with a(1) show ?thesis by blast
qed

lemma no_span_from_open_fence:
  assumes u: "unterminatedFence s i" and r: "r \<in> set (excludedRanges s)" and st: "r_start r = i"
  shows "r_end r = i + 2 \<and> r_end r < length s"
proof -
  note ch = open_fence_chars [OF u]
  have nw: "\<not> isWhiteSpace (s ! i)" "s ! i \<noteq> CHR ''[''"
    using ch(2) by (auto simp: isWhiteSpace_def)
  from r excludedRanges_sources [of s] obtain m where
    m: "m \<in> set (matchAll fencedRE s) \<union> set (matchAll inlineCodeRE s) \<union> set (matchAll defLineRE s)"
    and rm: "r = rangeOf s m"
    by blast
  from rm st have ix: "m_index m = i" by (simp add: rangeOf_def)
  from m consider "m \<in> set (matchAll fencedRE s)" | "m \<in> set (matchAll inlineCodeRE s)"
    | "m \<in> set (matchAll defLineRE s)" by blast
  then show ?thesis
  proof cases
    case 1
    from unterminated_no_fenced_match [OF u 1] ix show ?thesis by simp
  next
    case 2
    from matchAll_head [OF 2] ix obtain y ys where
      y: "ms inlineCodeRE s \<lparr>endIndex = i, captures = \<lambda>_. None\<rparr> = y # ys" and e: "m_end m = endIndex y"
      by auto
    then have "y \<in> set (ms inlineCodeRE s \<lparr>endIndex = i, captures = \<lambda>_. None\<rparr>)" by simp
    from inlineCode_at_backticks [OF this] ch(2) have "endIndex y = i + 2" by auto
    with e rangeOf_matchAll [OF 2] rm ch(1) show ?thesis by simp
  next
    case 3
    from matchAll_head [OF 3] ix obtain y ys where
      y: "ms defLineRE s \<lparr>endIndex = i, captures = \<lambda>_. None\<rparr> = y # ys"
      by auto
    then have "y \<in> set (ms defLineRE s \<lparr>endIndex = i, captures = \<lambda>_. None\<rparr>)" by simp
    from defLine_first_char [OF this] nw show ?thesis by simp
  qed
qed

text \<open>
  Claim C3 says that an opening fence without a closing fence excludes the rest of the
  document. In a document of an opening fence line followed by \<open>[x](y)\<close>, \<open>fencedRE\<close> has
  no match; the only exclusion span is the pair of backticks that \<open>inlineCodeRE\<close> matches
  at the start, and the link after the fence is replaced by \<open>[1]\<close>.
\<close>

theorem unterminated_fence_counterexample:
  "excludedRanges ([CHR 0x60, CHR 0x60, CHR 0x60, CHR 0x0A] @ ''[x](y)'') = [\<lparr>r_start = 0, r_end = 2\<rparr>]
   \<and> keptHits ([CHR 0x60, CHR 0x60, CHR 0x60, CHR 0x0A] @ ''[x](y)'') = [\<lparr>r_start = 4, r_end = 10\<rparr>]
   \<and> replaceMarkdownLinksWithOrder ([CHR 0x60, CHR 0x60, CHR 0x60, CHR 0x0A] @ ''[x](y)'')
       = [CHR 0x60, CHR 0x60, CHR 0x60, CHR 0x0A] @ ''[1]''"
proof -
  have "excludedRanges ([CHR 0x60, CHR 0x60, CHR 0x60, CHR 0x0A] @ ''[x](y)'') = [\<lparr>r_start = 0, r_end = 2\<rparr>]"
    by code_simp
  moreover have "keptHits ([CHR 0x60, CHR 0x60, CHR 0x60, CHR 0x0A] @ ''[x](y)'') = [\<lparr>r_start = 4, r_end = 10\<rparr>]"
    by code_simp
  moreover have "replaceMarkdownLinksWithOrder ([CHR 0x60, CHR 0x60, CHR 0x60, CHR 0x0A] @ ''[x](y)'')
       = [CHR 0x60, CHR 0x60, CHR 0x60, CHR 0x0A] @ ''[1]''"
    by code_simp
  ultimately show ?thesis by simp
qed

text \<open>
  A line of text, an opening line of three backticks that no later line closes, a block
  between two lines of three tildes, and a link.
\<close>

definition openFenceSample :: string where
  "openFenceSample =
     ''intro'' @ [CHR 0x0A, CHR 0x60, CHR 0x60, CHR 0x60, CHR 0x0A] @ ''~~~'' @ [CHR 0x0A] @ ''a''
     @ [CHR 0x0A] @ ''~~~'' @ [CHR 0x0A] @ ''[x](y)''"

text \<open>
  Claim C3, amended. If a document contains an opening triple-backtick (or triple-tilde)
  fence with no closing fence, at any index \<open>i\<close>, the rewriter makes no exclusion span of
  it: the fence pattern, which requires the closing line, matches neither at the open
  fence nor at a later fence of the same three characters; no exclusion span that begins
  at the open fence goes beyond its first two characters, so none reaches the end of the
  document; and every link-like occurrence after the open fence that intersects no match
  of the fence pattern (a closed block), no inline code match and no definition line is a
  kept hit, which the rewriter replaces.
\<close>

theorem unterminated_fence_excludes_nothing:
  assumes "unterminatedFence markdown i"
  shows "(\<forall>m \<in> set (matchAll fencedRE markdown).
            i \<le> m_index m \<longrightarrow>
            slice markdown (m_index m) (m_index m + 3) \<noteq> slice markdown i (i + 3))
       \<and> (\<forall>r \<in> set (excludedRanges markdown).
            r_start r = i \<longrightarrow> r_end r = i + 2 \<and> r_end r < length markdown)
       \<and> (\<forall>h \<in> set (linkOccurrences markdown).
            i \<le> r_start h
            \<and> (\<forall>c \<in> set (matchAll fencedRE markdown) \<union> set (matchAll inlineCodeRE markdown)
                      \<union> set (matchAll defLineRE markdown).
                  \<not> intersects h (rangeOf markdown c))
            \<longrightarrow> h \<in> set (keptHits markdown))"
  using unterminated_no_fenced_match [OF assms] no_span_from_open_fence [OF assms]
    occurrence_kept [of _ markdown]
  by blast

theorem unterminated_fence_excludes_nothing_witness:
  "unterminatedFence openFenceSample 6
   \<and> slice openFenceSample 6 9 = backticks
   \<and> map (\<lambda>m. (m_index m, slice openFenceSample (m_index m) (m_index m + 3)))
         (matchAll fencedRE openFenceSample) = [(10, ''~~~'')]
   \<and> map (rangeOf openFenceSample) (matchAll fencedRE openFenceSample) = [\<lparr>r_start = 10, r_end = 19\<rparr>]
   \<and> excludedRanges openFenceSample = [\<lparr>r_start = 10, r_end = 19\<rparr>, \<lparr>r_start = 6, r_end = 8\<rparr>]
   \<and> linkOccurrences openFenceSample = [\<lparr>r_start = 20, r_end = 26\<rparr>]
   \<and> \<lparr>r_start = 20, r_end = 26\<rparr> \<in> set (keptHits openFenceSample)
   \<and> replaceMarkdownLinksWithOrder openFenceSample
       = ''intro'' @ [CHR 0x0A, CHR 0x60, CHR 0x60, CHR 0x60, CHR 0x0A] @ ''~~~'' @ [CHR 0x0A] @ ''a''
         @ [CHR 0x0A] @ ''~~~'' @ [CHR 0x0A] @ ''[1]''"
proof -
  let ?D = openFenceSample
  let ?h = "\<lparr>r_start = 20, r_end = 26\<rparr>"
  have u: "unterminatedFence ?D 6" by code_simp
  have b: "slice ?D 6 9 = backticks" by code_simp
  have i: "map (\<lambda>m. (m_index m, slice ?D (m_index m) (m_index m + 3))) (matchAll fencedRE ?D)
      = [(10, ''~~~'')]" by code_simp
  have f: "map (rangeOf ?D) (matchAll fencedRE ?D) = [\<lparr>r_start = 10, r_end = 19\<rparr>]" by code_simp
  have c: "map (rangeOf ?D) (matchAll inlineCodeRE ?D) = [\<lparr>r_start = 6, r_end = 8\<rparr>]" by code_simp
  have d: "map (rangeOf ?D) (matchAll defLineRE ?D) = []" by code_simp
  have e: "excludedRanges ?D = [\<lparr>r_start = 10, r_end = 19\<rparr>, \<lparr>r_start = 6, r_end = 8\<rparr>]" by code_simp
  have l: "linkOccurrences ?D = [?h]" by code_simp
  have r: "replaceMarkdownLinksWithOrder ?D
       = ''intro'' @ [CHR 0x0A, CHR 0x60, CHR 0x60, CHR 0x60, CHR 0x0A] @ ''~~~'' @ [CHR 0x0A] @ ''a''
         @ [CHR 0x0A] @ ''~~~'' @ [CHR 0x0A] @ ''[1]''" by code_simp
  have "\<forall>r \<in> set (map (rangeOf ?D) (matchAll fencedRE ?D)) \<union> set (map (rangeOf ?D) (matchAll inlineCodeRE ?D))
              \<union> set (map (rangeOf ?D) (matchAll defLineRE ?D)). \<not> intersects ?h r"
    unfolding f c d by (simp add: intersects_def)
  then have clear: "\<forall>c \<in> set (matchAll fencedRE ?D) \<union> set (matchAll inlineCodeRE ?D)
              \<union> set (matchAll defLineRE ?D). \<not> intersects ?h (rangeOf ?D c)"
    by auto
  from unterminated_fence_excludes_nothing [OF u] l clear
  have "?h \<in> set (keptHits ?D)" by simp
  with u b i f e l r show ?thesis by simp
qed

end
